theory Spec2Isabelle
  imports Complex_Main "HOL-Library.Stream" "HOL-Library.Multiset"
begin

section \<open>The Boltzmann wealth model of the visualization tutorial\<close>

text \<open>
  The notebook \<^verbatim>\<open>docs/tutorials/visualization_tutorial.ipynb\<close> defines
  \<^verbatim>\<open>compute_gini\<close>, \<^verbatim>\<open>MoneyAgent\<close> and \<^verbatim>\<open>MoneyModel\<close> on top of the mesa
  library. Python objects are mutated in place; here every operation takes the model
  and returns the model it leaves behind, together with the exception it raised, if
  any. An agent is referred to by its index in the population.
\<close>

subsection \<open>Exceptions and results\<close>

datatype error =
  IndexError | ZeroDivisionError | OverflowError | ValueError | TypeError | OutOfBounds

text \<open>
  A stateful operation returns the exception (\<open>None\<close> when it completed) and the state
  at that moment: a Python exception does not undo the mutations made before it.
  \<open>and_then\<close> is sequencing of two statements: the second runs only when the first
  completed.
\<close>

definition and_then :: "error option \<times> 's \<Rightarrow> ('s \<Rightarrow> error option \<times> 's) \<Rightarrow> error option \<times> 's" where
  "and_then r f = (case r of (None, s) \<Rightarrow> f s | (Some e, s) \<Rightarrow> (Some e, s))"

subsection \<open>Python floats\<close>

text \<open>
  A Python float is an IEEE 754 binary64 number: a finite value, an infinity or a NaN.
  The finite values are real numbers of the form \<open>m * 2 powi k\<close> with \<open>\<bar>m\<bar> < 2 ^ 53\<close> and
  \<open>- 1074 \<le> k\<close>, below \<open>2 ^ 1024\<close> in magnitude. The two zeros are one value here: no
  operation below tells them apart.
\<close>

datatype pyfloat = Finite real | PosInf | NegInf | NaN

text \<open>\<open>floor_log2 n\<close> is the position of the leading bit of \<open>n \<ge> 1\<close>.\<close>

function floor_log2 :: "int \<Rightarrow> int" where
  "floor_log2 n = (if n < 2 then 0 else floor_log2 (n div 2) + 1)"
  by pat_completeness auto
termination
  by (relation "measure nat") auto

declare floor_log2.simps [simp del]

text \<open>
  The binary exponent of \<open>x \<noteq> 0\<close>, the \<open>e\<close> with \<open>2 powi e \<le> \<bar>x\<bar> < 2 powi (e + 1)\<close>, computed
  on the integer part of \<open>\<bar>x\<bar>\<close> or, below 1, on that of its reciprocal.
\<close>

definition exponent :: "real \<Rightarrow> int" where
  "exponent x =
     (if 1 \<le> \<bar>x\<bar> then floor_log2 \<lfloor>\<bar>x\<bar>\<rfloor>
      else - (floor_log2 (\<lceil>1 / \<bar>x\<bar>\<rceil> - 1) + 1))"

text \<open>Rounding to the nearest integer, a tie to the even one.\<close>

definition round_half_even :: "real \<Rightarrow> int" where
  "round_half_even y =
     (let f = \<lfloor>y\<rfloor>; d = y - of_int f
      in if d < 1 / 2 then f else if 1 / 2 < d then f + 1 else if even f then f else f + 1)"

text \<open>
  The result of an IEEE operation whose exact value is \<open>x\<close>, in the default rounding mode:
  the nearest number with 53 significant bits (fewer below \<open>2 powi (- 1022)\<close>, where the
  spacing stays \<open>2 powi (- 1074)\<close>), a tie to the even significand, and an infinity when
  that number has left the finite range.
\<close>

definition round_double :: "real \<Rightarrow> pyfloat" where
  "round_double x =
     (if x = 0 then Finite 0
      else (let ulp = 2 powi (max (exponent x) (- 1022) - 52);
                r = of_int (round_half_even (x / ulp)) * ulp
            in if 2 ^ 1024 \<le> r then PosInf
               else if r \<le> - (2 ^ 1024) then NegInf
               else Finite r))"

text \<open>
  \<^verbatim>\<open>a / b\<close> on two Python integers: ZeroDivisionError for a zero divisor, otherwise the
  correctly rounded quotient, and OverflowError when that is too large for a float.
\<close>

definition true_divide :: "int \<Rightarrow> int \<Rightarrow> error + pyfloat" where
  "true_divide a b =
     (if b = 0 then Inl ZeroDivisionError
      else (case round_double (of_int a / of_int b) of
              Finite r \<Rightarrow> Inr (Finite r)
            | _ \<Rightarrow> Inl OverflowError))"

text \<open>
  Sum, difference and product of two floats: the exact result rounded, with the IEEE
  rules for infinities and NaN; none of them raises.
\<close>

fun float_neg :: "pyfloat \<Rightarrow> pyfloat" where
  "float_neg (Finite a) = Finite (- a)"
| "float_neg PosInf = NegInf"
| "float_neg NegInf = PosInf"
| "float_neg NaN = NaN"

fun float_add :: "pyfloat \<Rightarrow> pyfloat \<Rightarrow> pyfloat" where
  "float_add (Finite a) (Finite b) = round_double (a + b)"
| "float_add NaN _ = NaN"
| "float_add _ NaN = NaN"
| "float_add PosInf NegInf = NaN"
| "float_add NegInf PosInf = NaN"
| "float_add PosInf _ = PosInf"
| "float_add _ PosInf = PosInf"
| "float_add NegInf _ = NegInf"
| "float_add _ NegInf = NegInf"

definition float_sub :: "pyfloat \<Rightarrow> pyfloat \<Rightarrow> pyfloat" where
  "float_sub a b = float_add a (float_neg b)"

definition float_sign :: "pyfloat \<Rightarrow> int" where
  "float_sign a =
     (case a of
        Finite r \<Rightarrow> (if r = 0 then 0 else if 0 < r then 1 else - 1)
      | PosInf \<Rightarrow> 1
      | NegInf \<Rightarrow> - 1
      | NaN \<Rightarrow> 0)"

fun float_mul :: "pyfloat \<Rightarrow> pyfloat \<Rightarrow> pyfloat" where
  "float_mul (Finite a) (Finite b) = round_double (a * b)"
| "float_mul NaN _ = NaN"
| "float_mul _ NaN = NaN"
| "float_mul a b =
     (if float_sign a * float_sign b = 0 then NaN
      else if 0 < float_sign a * float_sign b then PosInf else NegInf)"

subsection \<open>The random sources\<close>

text \<open>
  A seeded pseudo-random generator is the stream of its future draws: one element is
  the outcome of one call of \<^verbatim>\<open>_randbelow\<close>, reduced to the range asked for. Every
  sequence of outcomes is some stream, so a property of all streams holds of every run.
  Python's \<^verbatim>\<open>random.Random\<close> methods are modelled after the standard library:
  \<^verbatim>\<open>_randbelow(n)\<close> yields a number below \<open>n\<close>,
  \<^verbatim>\<open>choice(seq)\<close> raises IndexError on an empty sequence and returns
  \<^verbatim>\<open>seq[_randbelow(len(seq))]\<close> otherwise, and \<^verbatim>\<open>shuffle(x)\<close> is
  \<^verbatim>\<open>for i in reversed(range(1, len(x))): j = randbelow(i + 1); x[i], x[j] = x[j], x[i]\<close>.
\<close>

type_synonym generator = "nat stream"

definition randbelow :: "nat \<Rightarrow> generator \<Rightarrow> nat \<times> generator" where
  "randbelow n s = (shd s mod n, stl s)"

definition choice :: "'a list \<Rightarrow> generator \<Rightarrow> error + ('a \<times> generator)" where
  "choice seq s =
     (if length seq = 0 then Inl IndexError
      else (let (i, s') = randbelow (length seq) s in Inr (seq ! i, s')))"

fun shuffle_loop :: "nat \<Rightarrow> 'a list \<Rightarrow> generator \<Rightarrow> 'a list \<times> generator" where
  "shuffle_loop 0 x s = (x, s)"
| "shuffle_loop (Suc i) x s =
     (let (j, s') = randbelow (Suc i + 1) s
      in shuffle_loop i (x[Suc i := x ! j, j := x ! Suc i]) s')"

definition shuffle :: "'a list \<Rightarrow> generator \<Rightarrow> 'a list \<times> generator" where
  "shuffle x s = shuffle_loop (length x - 1) x s"

text \<open>
  numpy's \<^verbatim>\<open>Generator.integers(low, high, size=(n,))\<close>: \<open>n\<close> draws from
  \<open>[low, high)\<close>; an empty interval is a ValueError.
\<close>

definition integers :: "int \<Rightarrow> int \<Rightarrow> nat \<Rightarrow> generator \<Rightarrow> error + (int list \<times> generator)" where
  "integers low high k s =
     (if k = 0 then Inr ([], s)
      else if high \<le> low then Inl ValueError
      else Inr (map (\<lambda>r. low + int r mod (high - low)) (stake k s), sdrop k s))"

subsection \<open>Data model\<close>

type_synonym position = "int \<times> int"

record MoneyAgent =
  pos :: "position option"
  wealth :: int

record MultiGrid =
  width :: int
  height :: int
  torus :: bool
  cells :: "position \<Rightarrow> nat list"

record DataCollector =
  model_vars :: "pyfloat list"
  agent_records :: "int list list"

record MoneyModel =
  num_agents :: nat
  grid :: MultiGrid
  agents :: "MoneyAgent list"
  random :: generator
  rng :: generator
  datacollector :: DataCollector

subsection \<open>The grid\<close>

definition out_of_bounds :: "MultiGrid \<Rightarrow> position \<Rightarrow> bool" where
  "out_of_bounds g p = (case p of (x, y) \<Rightarrow> x < 0 \<or> width g \<le> x \<or> y < 0 \<or> height g \<le> y)"

definition normalize :: "MultiGrid \<Rightarrow> position \<Rightarrow> position" where
  "normalize g p = (case p of (x, y) \<Rightarrow> if torus g then (x mod width g, y mod height g) else (x, y))"

text \<open>
  Modelled from the spec: \<^verbatim>\<open>MultiGrid.get_neighborhood\<close> of mesa.space is not part of
  the notebook. Section 4.1: the positions at Chebyshev distance at most \<open>radius\<close> from
  \<open>position\<close>, the centre optionally excluded, with the boundary policy applied per
  coordinate (wrapped on a torus, positions outside the extent dropped otherwise); the
  result is a collection without duplicates. This is the Moore neighbourhood, which the
  call in \<^verbatim>\<open>MoneyAgent.move\<close> asks for (\<^verbatim>\<open>moore=True\<close>); the radius is 1 there.
\<close>

definition get_neighborhood :: "MultiGrid \<Rightarrow> position \<Rightarrow> nat \<Rightarrow> bool \<Rightarrow> position list" where
  "get_neighborhood g p radius include_center =
     (case p of (x, y) \<Rightarrow>
        (let r = int radius;
             around = concat (map (\<lambda>dy. map (\<lambda>dx. normalize g (x + dx, y + dy)) [- r..r]) [- r..r]);
             inside = remdups (filter (\<lambda>q. \<not> out_of_bounds g q) around)
         in if include_center then inside else filter (\<lambda>q. q \<noteq> p) inside))"

text \<open>
  Modelled from the spec: \<^verbatim>\<open>MultiGrid.get_cell_list_contents\<close> of mesa.space, the
  spec's \<^verbatim>\<open>contents\<close>: the agents at the given positions, none for an empty cell.
\<close>

definition get_cell_list_contents :: "MultiGrid \<Rightarrow> position list \<Rightarrow> nat list" where
  "get_cell_list_contents g ps = concat (map (cells g) ps)"

definition cell_insert :: "nat \<Rightarrow> position \<Rightarrow> MultiGrid \<Rightarrow> MultiGrid" where
  "cell_insert a p g =
     g\<lparr>cells := (cells g)(p := (if a \<in> set (cells g p) then cells g p else cells g p @ [a]))\<rparr>"

definition cell_remove :: "nat \<Rightarrow> position \<Rightarrow> MultiGrid \<Rightarrow> MultiGrid" where
  "cell_remove a p g = g\<lparr>cells := (cells g)(p := removeAll a (cells g p))\<rparr>"

text \<open>
  Modelled from the spec: \<^verbatim>\<open>MultiGrid.place_agent\<close> of mesa.space, the spec's
  \<^verbatim>\<open>place\<close>: the position is normalised by the boundary policy, a position outside
  the extent fails with OutOfBounds, otherwise the agent joins the cell and the
  position is recorded as its current cell.
\<close>

definition place_agent :: "nat \<Rightarrow> position \<Rightarrow> MoneyModel \<Rightarrow> error option \<times> MoneyModel" where
  "place_agent a position m =
     (let p = normalize (grid m) position
      in if out_of_bounds (grid m) p then (Some OutOfBounds, m)
         else (None, m\<lparr>grid := cell_insert a p (grid m),
                        agents := (agents m)[a := (agents m ! a)\<lparr>pos := Some p\<rparr>]\<rparr>))"

text \<open>
  Modelled from the spec: \<^verbatim>\<open>MultiGrid.move_agent\<close> of mesa.space, the spec's
  \<^verbatim>\<open>move\<close>: the agent leaves the set of its current cell and joins the set of the new
  position in one step, with the bounds handling of \<^verbatim>\<open>place\<close>.
\<close>

definition move_agent :: "nat \<Rightarrow> position \<Rightarrow> MoneyModel \<Rightarrow> error option \<times> MoneyModel" where
  "move_agent a new_position m =
     (let p = normalize (grid m) new_position
      in if out_of_bounds (grid m) p then (Some OutOfBounds, m)
         else (let g = (case pos (agents m ! a) of
                          None \<Rightarrow> grid m
                        | Some q \<Rightarrow> cell_remove a q (grid m))
               in (None, m\<lparr>grid := cell_insert a p g,
                            agents := (agents m)[a := (agents m ! a)\<lparr>pos := Some p\<rparr>]\<rparr>)))"

subsection \<open>compute_gini\<close>

text \<open>
  \<^verbatim>\<open>
  def compute_gini(model):
      agent_wealths = [agent.wealth for agent in model.agents]
      x = sorted(agent_wealths)
      N = model.num_agents
      B = sum(xi * (N - i) for i, xi in enumerate(x)) / (N * sum(x))
      return 1 + (1 / N) - 2 * B
  \<close>
  The numerator and the denominator of \<open>B\<close> are Python integers and \<^verbatim>\<open>/\<close> is true division
  on them, as is \<^verbatim>\<open>1 / N\<close>. The integers 1 and 2 become floats without error, and the sum,
  the product and the difference are float operations, in that order.
\<close>

definition compute_gini :: "MoneyModel \<Rightarrow> error + pyfloat" where
  "compute_gini model =
     (let agent_wealths = map wealth (agents model);
          x = sort agent_wealths;
          N = int (num_agents model)
      in case true_divide (\<Sum>(i, xi)\<leftarrow>enumerate 0 x. xi * (N - int i)) (N * sum_list x) of
           Inl e \<Rightarrow> Inl e
         | Inr B \<Rightarrow>
             (case true_divide 1 N of
                Inl e \<Rightarrow> Inl e
              | Inr q \<Rightarrow> Inr (float_sub (float_add (Finite 1) q) (float_mul (Finite 2) B))))"

subsection \<open>MoneyAgent\<close>

text \<open>\<^verbatim>\<open>MoneyAgent.__init__\<close>: a fresh agent has wealth 1 and no position yet.\<close>

definition MoneyAgent_init :: MoneyAgent where
  "MoneyAgent_init = \<lparr>pos = None, wealth = 1\<rparr>"

text \<open>
  \<^verbatim>\<open>
  def move(self):
      possible_steps = self.model.grid.get_neighborhood(
          self.pos, moore=True, include_center=False)
      new_position = self.random.choice(possible_steps)
      self.model.grid.move_agent(self, new_position)
  \<close>
  \<^verbatim>\<open>self.random\<close> is the model's generator. An agent that was never placed has
  position \<^verbatim>\<open>None\<close>, which the neighbourhood query cannot unpack (TypeError).
\<close>

definition move :: "nat \<Rightarrow> MoneyModel \<Rightarrow> error option \<times> MoneyModel" where
  "move self m =
     (case pos (agents m ! self) of
        None \<Rightarrow> (Some TypeError, m)
      | Some p \<Rightarrow>
          (let possible_steps = get_neighborhood (grid m) p 1 False
           in case choice possible_steps (random m) of
                Inl e \<Rightarrow> (Some e, m)
              | Inr (new_position, s') \<Rightarrow> move_agent self new_position (m\<lparr>random := s'\<rparr>)))"

text \<open>
  \<^verbatim>\<open>
  def give_money(self):
      """give money to another agent in the same gridcell."""
      cellmates = self.model.grid.get_cell_list_contents([self.pos])
      if len(cellmates) > 1:
          other = self.random.choice(cellmates)
          other.wealth += 1
          self.wealth -= 1
  \<close>
\<close>

definition add_wealth :: "nat \<Rightarrow> int \<Rightarrow> MoneyModel \<Rightarrow> MoneyModel" where
  "add_wealth a d m = m\<lparr>agents := (agents m)[a := (agents m ! a)\<lparr>wealth := wealth (agents m ! a) + d\<rparr>]\<rparr>"

definition give_money :: "nat \<Rightarrow> MoneyModel \<Rightarrow> error option \<times> MoneyModel" where
  "give_money self m =
     (case pos (agents m ! self) of
        None \<Rightarrow> (Some TypeError, m)
      | Some p \<Rightarrow>
          (let cellmates = get_cell_list_contents (grid m) [p]
           in if length cellmates > 1 then
                (case choice cellmates (random m) of
                   Inl e \<Rightarrow> (Some e, m)
                 | Inr (other, s') \<Rightarrow>
                     (None, add_wealth self (- 1) (add_wealth other 1 (m\<lparr>random := s'\<rparr>))))
              else (None, m)))"

text \<open>
  \<^verbatim>\<open>
  def step(self):
      self.move()
      if self.wealth > 0:
          self.give_money()
  \<close>
\<close>

definition MoneyAgent_step :: "nat \<Rightarrow> MoneyModel \<Rightarrow> error option \<times> MoneyModel" where
  "MoneyAgent_step self m =
     and_then (move self m)
       (\<lambda>m'. if wealth (agents m' ! self) > 0 then give_money self m' else (None, m'))"

subsection \<open>MoneyModel\<close>

text \<open>
  Modelled from the spec: \<^verbatim>\<open>DataCollector.collect\<close> of mesa is not part of the
  notebook. Section 4.4: each model-level reporter (here \<^verbatim>\<open>"Gini": compute_gini\<close>)
  is computed and appended to its series, each agent-level reporter (here the
  attribute \<^verbatim>\<open>"Wealth": "wealth"\<close>) records one value per agent for the tick; the
  model is not otherwise changed. An exception of a reporter leaves the collector as
  it was.
\<close>

definition collect :: "MoneyModel \<Rightarrow> error option \<times> MoneyModel" where
  "collect m =
     (case compute_gini m of
        Inl e \<Rightarrow> (Some e, m)
      | Inr g \<Rightarrow>
          (None, m\<lparr>datacollector :=
                     \<lparr>model_vars = model_vars (datacollector m) @ [g],
                      agent_records = agent_records (datacollector m) @ [map wealth (agents m)]\<rparr>\<rparr>))"

text \<open>
  Modelled from the spec: \<^verbatim>\<open>AgentSet.shuffle_do\<close> of mesa is not part of the notebook.
  Section 4.3: a permutation of the current population is drawn from the shared random
  source, then each agent's step is invoked in that order, one after the other; a
  failure is surfaced at once and the agents not yet activated do not act.
\<close>

fun do_each :: "nat list \<Rightarrow> MoneyModel \<Rightarrow> error option \<times> MoneyModel" where
  "do_each [] m = (None, m)"
| "do_each (a # as) m = and_then (MoneyAgent_step a m) (do_each as)"

definition shuffle_do :: "MoneyModel \<Rightarrow> error option \<times> MoneyModel" where
  "shuffle_do m =
     (let (order, s') = shuffle [0..<length (agents m)] (random m)
      in do_each order (m\<lparr>random := s'\<rparr>))"

text \<open>
  \<^verbatim>\<open>
  def step(self):
      self.agents.shuffle_do("step")
      self.datacollector.collect(self)
  \<close>
\<close>

definition MoneyModel_step :: "MoneyModel \<Rightarrow> error option \<times> MoneyModel" where
  "MoneyModel_step m = and_then (shuffle_do m) collect"

text \<open>
  Modelled from the spec: \<^verbatim>\<open>mesa.Model.__init__(seed=seed)\<close> is not part of the
  notebook. Sections 3 and 6: the generators are seeded once at construction, from the
  seed when one is given and from the environment's entropy when it is unset. The two
  generator algorithms (Python's \<^verbatim>\<open>random.Random\<close> behind \<^verbatim>\<open>self.random\<close>, numpy's
  behind \<^verbatim>\<open>self.rng\<close>) are parameters: each maps a seed to its stream of draws.
\<close>

definition Model_init ::
  "(int \<Rightarrow> generator) \<Rightarrow> (int \<Rightarrow> generator) \<Rightarrow> int \<Rightarrow> int option \<Rightarrow> generator \<times> generator" where
  "Model_init py_gen np_gen entropy seed =
     (let s = (case seed of None \<Rightarrow> entropy | Some k \<Rightarrow> k) in (py_gen s, np_gen s))"

text \<open>
  \<^verbatim>\<open>
  def __init__(self, n=10, width=10, height=10, seed=None):
      super().__init__(seed=seed)
      self.num_agents = n
      self.grid = mesa.space.MultiGrid(width, height, True)
      agents = MoneyAgent.create_agents(model=self, n=n)
      x = self.rng.integers(0, self.grid.width, size=(n,))
      y = self.rng.integers(0, self.grid.height, size=(n,))
      for a, i, j in zip(agents, x, y):
          self.grid.place_agent(a, (i, j))
      self.datacollector = mesa.DataCollector(
          model_reporters={"Gini": compute_gini}, agent_reporters={"Wealth": "wealth"})
      self.datacollector.collect(self)
  \<close>
  The agent count is a natural number. \<^verbatim>\<open>create_agents\<close> constructs \<open>n\<close> agents, each by
  \<^verbatim>\<open>MoneyAgent.__init__\<close>. The record has its collector from the start, empty until the
  constructor creates it and captures tick 0. A constructor that raises leaves no model
  behind.
\<close>

fun place_all :: "(nat \<times> int \<times> int) list \<Rightarrow> MoneyModel \<Rightarrow> error option \<times> MoneyModel" where
  "place_all [] m = (None, m)"
| "place_all ((a, i, j) # rest) m = and_then (place_agent a (i, j) m) (place_all rest)"

definition MoneyModel_init ::
  "(int \<Rightarrow> generator) \<Rightarrow> (int \<Rightarrow> generator) \<Rightarrow> int \<Rightarrow>
   nat \<Rightarrow> int \<Rightarrow> int \<Rightarrow> int option \<Rightarrow> error + MoneyModel" where
  "MoneyModel_init py_gen np_gen entropy n w h seed =
     (let (random0, rng0) = Model_init py_gen np_gen entropy seed;
          grid0 = \<lparr>width = w, height = h, torus = True, cells = (\<lambda>p. [])\<rparr>;
          agents0 = replicate n MoneyAgent_init
      in case integers 0 (width grid0) n rng0 of
           Inl e \<Rightarrow> Inl e
         | Inr (x, rng1) \<Rightarrow>
             (case integers 0 (height grid0) n rng1 of
                Inl e \<Rightarrow> Inl e
              | Inr (y, rng2) \<Rightarrow>
                  (let m0 = \<lparr>num_agents = n, grid = grid0, agents = agents0,
                             random = random0, rng = rng2,
                             datacollector = \<lparr>model_vars = [], agent_records = []\<rparr>\<rparr>
                   in case and_then (place_all (zip [0..<n] (zip x y)) m0) collect of
                        (Some e, _) \<Rightarrow> Inl e
                      | (None, m) \<Rightarrow> Inr m)))"

subsection \<open>Runs\<close>

text \<open>
  The external driver calls \<^verbatim>\<open>step()\<close> again and again on the same object. A state is
  reachable when a construction returned it or a call to \<^verbatim>\<open>step()\<close> left it behind
  (completed or not).
\<close>

fun run :: "nat \<Rightarrow> MoneyModel \<Rightarrow> MoneyModel" where
  "run 0 m = m"
| "run (Suc k) m = run k (snd (MoneyModel_step m))"

inductive reachable :: "MoneyModel \<Rightarrow> bool" where
  constructed: "MoneyModel_init py_gen np_gen entropy n w h seed = Inr m \<Longrightarrow> reachable m"
| stepped: "reachable m \<Longrightarrow> reachable (snd (MoneyModel_step m))"

definition total_wealth :: "MoneyModel \<Rightarrow> int" where
  "total_wealth m = sum_list (map wealth (agents m))"

subsection \<open>Invariants\<close>

text \<open>
  Agents are referred to by index, so a cell may only hold indices of the population
  (in Python a cell holds the agent objects themselves).
\<close>

definition refs_valid :: "MoneyModel \<Rightarrow> bool" where
  "refs_valid m = (\<forall>p. \<forall>a \<in> set (cells (grid m) p). a < length (agents m))"

text \<open>
  A model of \<open>n\<close> agents on a \<open>w\<close> by \<open>h\<close> torus, as the constructor leaves it and
  every step keeps it: every agent is placed inside the extent, no wealth is negative
  and the wealth sums to \<open>n\<close>.
\<close>

definition well_formed :: "nat \<Rightarrow> int \<Rightarrow> int \<Rightarrow> MoneyModel \<Rightarrow> bool" where
  "well_formed n w h m =
     (num_agents m = n \<and> length (agents m) = n \<and> 0 < n \<and>
      width (grid m) = w \<and> height (grid m) = h \<and> torus (grid m) \<and>
      refs_valid m \<and>
      (\<forall>a<n. \<exists>p. pos (agents m ! a) = Some p \<and> \<not> out_of_bounds (grid m) p) \<and>
      (\<forall>a<n. 0 \<le> wealth (agents m ! a)) \<and>
      total_wealth m = int n)"

text \<open>
  The state inside the constructor, while the agents are being placed: everybody still
  has the initial wealth, and whoever is placed is inside the extent.
\<close>

definition unplaced :: "nat \<Rightarrow> int \<Rightarrow> int \<Rightarrow> MoneyModel \<Rightarrow> bool" where
  "unplaced n w h m =
     (num_agents m = n \<and> length (agents m) = n \<and>
      width (grid m) = w \<and> height (grid m) = h \<and> torus (grid m) \<and>
      refs_valid m \<and>
      (\<forall>a<n. wealth (agents m ! a) = 1) \<and>
      (\<forall>a<n. \<forall>p. pos (agents m ! a) = Some p \<longrightarrow> \<not> out_of_bounds (grid m) p))"

subsection \<open>Example states\<close>

text \<open>
  \<open>example_model\<close> is what the constructor returns for two agents on a 10 by 10 grid
  when every draw of both generators is 0: both agents stand on \<open>(0, 0)\<close>.
\<close>

definition example_model :: MoneyModel where
  "example_model =
     \<lparr>num_agents = 2,
      grid = \<lparr>width = 10, height = 10, torus = True, cells = (\<lambda>p. [])((0, 0) := [0, 1])\<rparr>,
      agents = [\<lparr>pos = Some (0, 0), wealth = 1\<rparr>, \<lparr>pos = Some (0, 0), wealth = 1\<rparr>],
      random = sconst 0, rng = sconst 0,
      datacollector = \<lparr>model_vars = [Finite 0], agent_records = [[1, 1]]\<rparr>\<rparr>"

text \<open>
  \<open>single_cell_model\<close> is what the constructor returns for one agent on a 1 by 1 grid.
\<close>

definition single_cell_model :: MoneyModel where
  "single_cell_model =
     \<lparr>num_agents = 1,
      grid = \<lparr>width = 1, height = 1, torus = True, cells = (\<lambda>p. [])((0, 0) := [0])\<rparr>,
      agents = [\<lparr>pos = Some (0, 0), wealth = 1\<rparr>],
      random = sconst 0, rng = sconst 0,
      datacollector = \<lparr>model_vars = [Finite 0], agent_records = [[1]]\<rparr>\<rparr>"

text \<open>
  \<open>pair_model\<close> is what the constructor returns for two agents on a grid of one column
  and two rows, with the draws 0, 0, 0, 1, 1, ... ahead in \<^verbatim>\<open>self.random\<close>.
  \<open>crowded_model\<close> is the state in the middle of its first step, when both agents have
  moved to \<open>(0, 1)\<close> and agent 0 is about to give money.
\<close>

definition pair_model :: MoneyModel where
  "pair_model =
     \<lparr>num_agents = 2,
      grid = \<lparr>width = 1, height = 2, torus = True, cells = (\<lambda>p. [])((0, 0) := [0, 1])\<rparr>,
      agents = [\<lparr>pos = Some (0, 0), wealth = 1\<rparr>, \<lparr>pos = Some (0, 0), wealth = 1\<rparr>],
      random = [0, 0, 0] @- sconst 1, rng = sconst 0,
      datacollector = \<lparr>model_vars = [Finite 0], agent_records = [[1, 1]]\<rparr>\<rparr>"

definition crowded_model :: MoneyModel where
  "crowded_model =
     \<lparr>num_agents = 2,
      grid = \<lparr>width = 1, height = 2, torus = True,
              cells = (\<lambda>p. [])((0, 0) := [], (0, 1) := [1, 0])\<rparr>,
      agents = [\<lparr>pos = Some (0, 1), wealth = 1\<rparr>, \<lparr>pos = Some (0, 1), wealth = 1\<rparr>],
      random = sconst 1, rng = sconst 0,
      datacollector = \<lparr>model_vars = [Finite 0], agent_records = [[1, 1]]\<rparr>\<rparr>"

text \<open>
  \<open>uneven_model\<close> has five agents with the wealth 1, 1, 1, 0 and 2: the state of five
  agents after one of them gave its unit to another.
\<close>

definition uneven_model :: MoneyModel where
  "uneven_model =
     \<lparr>num_agents = 5,
      grid = \<lparr>width = 10, height = 10, torus = True,
              cells = (\<lambda>p. [])((0, 0) := [0, 1, 2], (0, 1) := [3, 4])\<rparr>,
      agents = [\<lparr>pos = Some (0, 0), wealth = 1\<rparr>, \<lparr>pos = Some (0, 0), wealth = 1\<rparr>,
                \<lparr>pos = Some (0, 0), wealth = 1\<rparr>, \<lparr>pos = Some (0, 1), wealth = 0\<rparr>,
                \<lparr>pos = Some (0, 1), wealth = 2\<rparr>],
      random = sconst 0, rng = sconst 0,
      datacollector = \<lparr>model_vars = [Finite 0], agent_records = [[1, 1, 1, 1, 1]]\<rparr>\<rparr>"

text \<open>
  \<open>broke_model\<close> has one agent, whose wealth is 0. No construction returns it.
\<close>

definition broke_model :: MoneyModel where
  "broke_model =
     \<lparr>num_agents = 1,
      grid = \<lparr>width = 10, height = 10, torus = True, cells = (\<lambda>p. [])((0, 0) := [0])\<rparr>,
      agents = [\<lparr>pos = Some (0, 0), wealth = 0\<rparr>],
      random = sconst 0, rng = sconst 0,
      datacollector = \<lparr>model_vars = [], agent_records = []\<rparr>\<rparr>"

subsection \<open>The inequality coefficient of the specification\<close>

text \<open>
  The formula in the specification's words, for the wealth \<open>x[0..N-1]\<close> sorted ascending:
  \<open>B = (\<Sum>i<N. x[i] * (N - i)) / (N * \<Sum>x)\<close>, and the coefficient is \<open>1 + 1/N - 2B\<close>.
  \<open>inequality_coefficient\<close> is its exact value, \<open>inequality_coefficient_double\<close> the same
  formula carried out in floats. \<^verbatim>\<open>compute_gini\<close> is compared with both below.
\<close>

definition inequality_coefficient :: "int list \<Rightarrow> real" where
  "inequality_coefficient x =
     (let N = length x;
          B = real_of_int (\<Sum>i<N. x ! i * (int N - int i)) / real_of_int (int N * sum_list x)
      in 1 + 1 / real N - 2 * B)"

definition inequality_coefficient_double :: "int list \<Rightarrow> error + pyfloat" where
  "inequality_coefficient_double x =
     (let N = length x
      in case true_divide (\<Sum>i<N. x ! i * (int N - int i)) (int N * sum_list x) of
           Inl e \<Rightarrow> Inl e
         | Inr B \<Rightarrow>
             (case true_divide 1 (int N) of
                Inl e \<Rightarrow> Inl e
              | Inr q \<Rightarrow> Inr (float_sub (float_add (Finite 1) q) (float_mul (Finite 2) B))))"

section \<open>Properties\<close>

subsection \<open>Sequencing and random choice\<close>

lemma and_then_None [simp]: "and_then (None, s) f = f s"
  by (simp add: and_then_def)

lemma and_then_Some [simp]: "and_then (Some e, s) f = (Some e, s)"
  by (simp add: and_then_def)

lemma map_update_same: "(map f xs)[a := f (xs ! a)] = map f xs"
  by (metis list_update_id map_update)

lemma choice_member:
  "choice seq s = Inr (x, s') \<Longrightarrow> x \<in> set seq"
  by (auto simp: choice_def randbelow_def split: if_splits)

lemma choice_nonempty: "seq \<noteq> [] \<Longrightarrow> \<exists>x s'. choice seq s = Inr (x, s')"
  by (simp add: choice_def randbelow_def)

subsection \<open>Rounding\<close>

lemma floor_log2_small: "n < 2 \<Longrightarrow> floor_log2 n = 0"
  by (simp add: floor_log2.simps)

lemma floor_log2_halve: "2 \<le> n \<Longrightarrow> floor_log2 n = floor_log2 (n div 2) + 1"
  by (subst floor_log2.simps) simp

lemma floor_log2_bounds:
  "1 \<le> n \<Longrightarrow> 0 \<le> floor_log2 n \<and> 2 ^ nat (floor_log2 n) \<le> n \<and> n < 2 ^ nat (floor_log2 n + 1)"
proof (induction n rule: floor_log2.induct)
  case (1 n)
  show ?case
  proof (cases "n < 2")
    case True
    with "1.prems" have "n = 1" by simp
    then show ?thesis by (simp add: floor_log2_small)
  next
    case False
    then have h: "1 \<le> n div 2" by simp
    note IH = "1.IH" [OF False h]
    define k where "k = floor_log2 (n div 2)"
    have k: "0 \<le> k" "2 ^ nat k \<le> n div 2" "n div 2 < 2 ^ nat (k + 1)"
      using IH by (simp_all add: k_def)
    have eq: "floor_log2 n = k + 1" using False by (simp add: floor_log2_halve k_def)
    have p1: "(2::int) ^ nat (floor_log2 n) = 2 * 2 ^ nat k"
      using k(1) by (simp add: eq nat_add_distrib)
    have p2: "(2::int) ^ nat (floor_log2 n + 1) = 4 * 2 ^ nat k"
      using k(1) by (simp add: eq nat_add_distrib)
    have p3: "(2::int) ^ nat (k + 1) = 2 * 2 ^ nat k"
      using k(1) by (simp add: nat_add_distrib)
    have "2 * 2 ^ nat k \<le> n" using k(2) by linarith
    moreover have "n < 4 * 2 ^ nat k" using k(3) unfolding p3 by linarith
    moreover have "0 \<le> floor_log2 n" using k(1) eq by simp
    ultimately show ?thesis unfolding p1 p2 by simp
  qed
qed

lemma exponent_lower:
  assumes "x \<noteq> 0"
  shows "2 powi exponent x \<le> \<bar>x\<bar>"
proof (cases "1 \<le> \<bar>x\<bar>")
  case True
  define n where "n = \<lfloor>\<bar>x\<bar>\<rfloor>"
  have n: "1 \<le> n" using True by (simp add: n_def le_floor_iff)
  note B = floor_log2_bounds [OF n]
  have "2 powi floor_log2 n = (2::real) ^ nat (floor_log2 n)"
    using B by (simp add: power_int_def)
  also have "\<dots> = real_of_int (2 ^ nat (floor_log2 n))" by simp
  also have "\<dots> \<le> real_of_int n" using B by (simp only: of_int_le_iff)
  also have "\<dots> \<le> \<bar>x\<bar>" by (simp add: n_def)
  finally show ?thesis using True by (simp add: exponent_def n_def)
next
  case False
  define y where "y = 1 / \<bar>x\<bar>"
  have y: "1 < y" using False assms by (simp add: y_def)
  define n where "n = \<lceil>y\<rceil> - 1"
  have "2 \<le> \<lceil>y\<rceil>" using y by (simp add: le_ceiling_iff) 
  then have n: "1 \<le> n" by (simp add: n_def)
  note B = floor_log2_bounds [OF n]
  define k where "k = floor_log2 n + 1"
  have kpos: "0 \<le> k" using B by (simp add: k_def)
  have "y \<le> real_of_int \<lceil>y\<rceil>" by simp
  also have "\<lceil>y\<rceil> = n + 1" by (simp add: n_def)
  also have "real_of_int (n + 1) \<le> real_of_int (2 ^ nat k)"
    using B unfolding k_def by (simp only: of_int_le_iff) simp
  also have "\<dots> = 2 powi k" using kpos by (simp add: power_int_def)
  finally have "y \<le> 2 powi k" .
  then have "1 / (2 powi k) \<le> 1 / y"
    using y by (intro divide_left_mono) simp_all
  then have "2 powi (- k) \<le> \<bar>x\<bar>"
    using assms by (simp add: y_def power_int_minus_divide)
  then show ?thesis using False by (simp add: exponent_def k_def n_def y_def)
qed

lemma exponent_upper:
  assumes "x \<noteq> 0"
  shows "\<bar>x\<bar> < 2 powi (exponent x + 1)"
proof (cases "1 \<le> \<bar>x\<bar>")
  case True
  define n where "n = \<lfloor>\<bar>x\<bar>\<rfloor>"
  have n: "1 \<le> n" using True by (simp add: n_def le_floor_iff)
  note B = floor_log2_bounds [OF n]
  have "n + 1 \<le> 2 ^ nat (floor_log2 n + 1)" using B by simp
  then have "real_of_int (n + 1) \<le> real_of_int (2 ^ nat (floor_log2 n + 1))"
    by (simp only: of_int_le_iff)
  moreover have "\<bar>x\<bar> < real_of_int (n + 1)" unfolding n_def by simp
  moreover have "real_of_int (2 ^ nat (floor_log2 n + 1)) = 2 powi (floor_log2 n + 1)"
    using B by (simp add: power_int_def)
  ultimately have "\<bar>x\<bar> < 2 powi (floor_log2 n + 1)" by linarith
  then show ?thesis using True by (simp add: exponent_def n_def)
next
  case False
  define y where "y = 1 / \<bar>x\<bar>"
  have y: "1 < y" using False assms by (simp add: y_def)
  define n where "n = \<lceil>y\<rceil> - 1"
  have "2 \<le> \<lceil>y\<rceil>" using y by (simp add: le_ceiling_iff)
  then have n: "1 \<le> n" by (simp add: n_def)
  note B = floor_log2_bounds [OF n]
  define k where "k = floor_log2 n"
  have kpos: "0 \<le> k" using B by (simp add: k_def)
  have "2 powi k = real_of_int (2 ^ nat k)" using kpos by (simp add: power_int_def)
  also have "\<dots> \<le> real_of_int n" using B unfolding k_def by (simp only: of_int_le_iff)
  also have "real_of_int n < y" by (simp add: n_def) linarith
  finally have "2 powi k < y" .
  then have "1 / y < 1 / (2 powi k)"
    using y by (intro divide_strict_left_mono) simp_all
  then have "\<bar>x\<bar> < 2 powi (- k)"
    using assms by (simp add: y_def power_int_minus_divide)
  moreover have "exponent x + 1 = - k"
    using False by (simp add: exponent_def k_def n_def y_def)
  ultimately show ?thesis by simp
qed

lemma round_half_even_error: "\<bar>real_of_int (round_half_even y) - y\<bar> \<le> 1 / 2"
proof -
  have "real_of_int \<lfloor>y\<rfloor> \<le> y" "y < real_of_int \<lfloor>y\<rfloor> + 1" by linarith+
  then show ?thesis by (auto simp: round_half_even_def Let_def)
qed

lemma round_double_error:
  assumes x: "\<bar>x\<bar> < 2 powi (k + 1)" and k: "- 1022 \<le> k" "k \<le> 1022"
  shows "\<exists>r. round_double x = Finite r \<and> \<bar>r - x\<bar> \<le> 2 powi (k - 53)"
proof (cases "x = 0")
  case True
  then show ?thesis by (simp add: round_double_def)
next
  case False
  define E where "E = max (exponent x) (- 1022)"
  define u :: real where "u = 2 powi (E - 52)"
  define r where "r = real_of_int (round_half_even (x / u)) * u"
  have upos: "0 < u" by (simp add: u_def)
  have "exponent x < k + 1"
  proof (rule ccontr)
    assume "\<not> exponent x < k + 1"
    then have "(2::real) powi (k + 1) \<le> 2 powi exponent x"
      by (intro power_int_increasing) simp_all
    with exponent_lower [OF False] x show False by simp
  qed
  then have E: "E \<le> k" using k(1) by (simp add: E_def)
  have "u \<le> 2 powi (k - 52)"
    unfolding u_def using E by (intro power_int_increasing) simp_all
  also have "\<dots> = 2 * 2 powi (k - 53)"
    using power_int_add [of "2::real" 1 "k - 53"] by simp
  finally have u: "u / 2 \<le> 2 powi (k - 53)" by simp
  have "r - x = (real_of_int (round_half_even (x / u)) - x / u) * u"
    using upos by (simp add: r_def left_diff_distrib)
  then have "\<bar>r - x\<bar> = \<bar>real_of_int (round_half_even (x / u)) - x / u\<bar> * \<bar>u\<bar>"
    by (simp only: abs_mult)
  then have "\<bar>r - x\<bar> = \<bar>real_of_int (round_half_even (x / u)) - x / u\<bar> * u"
    using upos by simp
  also have "\<dots> \<le> 1 / 2 * u"
    using round_half_even_error [of "x / u"] upos by (intro mult_right_mono) simp_all
  finally have err: "\<bar>r - x\<bar> \<le> 2 powi (k - 53)" using u by simp
  have "(2::real) powi (k - 53) \<le> 2 powi (k + 1)"
    by (intro power_int_increasing) simp_all
  with err x have "\<bar>r\<bar> < 2 * 2 powi (k + 1)" by linarith
  also have "2 * (2::real) powi (k + 1) = 2 powi (k + 2)"
    using power_int_add [of "2::real" 1 "k + 1"] by (simp add: add.commute)
  also have "\<dots> \<le> 2 powi 1024"
    using k(2) by (intro power_int_increasing) simp_all
  finally have fin: "\<bar>r\<bar> < 2 ^ 1024" by simp
  then have "\<not> 2 ^ 1024 \<le> r" "\<not> r \<le> - (2 ^ 1024)" by linarith+
  then have "round_double x = Finite r"
    using False by (simp add: round_double_def Let_def E_def u_def r_def)
  with err show ?thesis by blast
qed

lemmas double_eval = true_divide_def round_double_def exponent_def round_half_even_def
  floor_log2_small floor_log2_halve float_sub_def Let_def

subsection \<open>The inequality coefficient in floats\<close>

lemma sum_list_enumerate:
  fixes f :: "nat \<Rightarrow> 'a \<Rightarrow> int"
  shows "(\<Sum>(i, xi)\<leftarrow>enumerate 0 x. f i xi) = (\<Sum>i<length x. f i (x ! i))"
  by (induction x rule: rev_induct) (simp_all add: enumerate_append_eq nth_append)

lemma sum_list_sort_int: "sum_list (sort (xs :: int list)) = sum_list xs"
  by (metis mset_sort sum_mset_sum_list)

lemma compute_gini_refines:
  assumes "num_agents m = length (agents m)"
    and "sorted x" and "mset x = mset (map wealth (agents m))"
  shows "compute_gini m = inequality_coefficient_double x"
proof -
  have x: "sort (map wealth (agents m)) = x"
    using assms(2,3) by (simp add: properties_for_sort)
  have len: "num_agents m = length x"
    using assms(1) mset_eq_length [OF assms(3)] by simp
  show ?thesis
    unfolding compute_gini_def inequality_coefficient_double_def Let_def x len sum_list_enumerate ..
qed

lemma gini_quotient_range:
  fixes x :: "int list"
  assumes nonneg: "\<forall>w \<in> set x. 0 \<le> w"
  shows "0 \<le> (\<Sum>i<length x. x ! i * (int (length x) - int i))"
    and "(\<Sum>i<length x. x ! i * (int (length x) - int i)) \<le> int (length x) * sum_list x"
proof -
  have t: "0 \<le> x ! i * (int (length x) - int i) \<and>
           x ! i * (int (length x) - int i) \<le> x ! i * int (length x)" if "i < length x" for i
  proof -
    have "0 \<le> x ! i" using nonneg that by simp
    then show ?thesis using that by (simp add: mult_left_mono)
  qed
  show "0 \<le> (\<Sum>i<length x. x ! i * (int (length x) - int i))"
    using t by (intro sum_nonneg) simp
  have "(\<Sum>i<length x. x ! i * (int (length x) - int i)) \<le> (\<Sum>i<length x. x ! i * int (length x))"
    using t by (intro sum_mono) simp
  also have "\<dots> = int (length x) * (\<Sum>i<length x. x ! i)"
    by (simp add: sum_distrib_left mult.commute)
  also have "(\<Sum>i<length x. x ! i) = sum_list x"
    by (simp add: sum_list_sum_nth atLeast0LessThan)
  finally show "(\<Sum>i<length x. x ! i * (int (length x) - int i)) \<le> int (length x) * sum_list x" .
qed

lemma inequality_coefficient_double_accuracy:
  assumes nonneg: "\<forall>w \<in> set x. 0 \<le> w" and pos: "0 < sum_list x"
  shows "\<exists>g. inequality_coefficient_double x = Inr (Finite g) \<and>
             \<bar>g - inequality_coefficient x\<bar> \<le> 11 / 2 ^ 53"
proof -
  define N where "N = length x"
  define num where "num = (\<Sum>i<N. x ! i * (int N - int i))"
  define den where "den = int N * sum_list x"
  have N: "0 < N" using pos by (cases x) (simp_all add: N_def)
  have den: "0 < den" using N pos by (simp add: den_def)
  have num: "0 \<le> num" "num \<le> den"
    using gini_quotient_range [OF nonneg] by (simp_all add: num_def den_def N_def)
  define B where "B = real_of_int num / real_of_int den"
  define q where "q = 1 / real N"
  have B: "0 \<le> B" "B \<le> 1" using num den by (simp_all add: B_def)
  have q: "0 < q" "q \<le> 1" using N by (simp_all add: q_def)
  have p53: "(2::real) powi (0 - 53) = 1 / 2 ^ 53" "(2::real) powi (1 - 53) = 2 / 2 ^ 53"
    "(2::real) powi (2 - 53) = 4 / 2 ^ 53"
    by (simp_all add: power_int_minus_divide)
  obtain Bh where Bh: "round_double B = Finite Bh" "\<bar>Bh - B\<bar> \<le> 1 / 2 ^ 53"
    using round_double_error [of B 0] B unfolding p53 by auto
  obtain qh where qh: "round_double q = Finite qh" "\<bar>qh - q\<bar> \<le> 1 / 2 ^ 53"
    using round_double_error [of q 0] q unfolding p53 by auto
  have small: "(1::real) / 2 ^ 53 \<le> 1 / 8" "(2::real) / 2 ^ 53 \<le> 1 / 8"
    "(2::real) powi (1 + 1) = 4" "(2::real) powi (2 + 1) = 8"
    by simp_all
  have "\<bar>1 + qh\<bar> < 2 powi (1 + 1)" using qh(2) q small by linarith
  then obtain sh where sh: "round_double (1 + qh) = Finite sh" "\<bar>sh - (1 + qh)\<bar> \<le> 2 / 2 ^ 53"
    using round_double_error [of "1 + qh" 1] unfolding p53 by auto
  have "\<bar>2 * Bh\<bar> < 2 powi (1 + 1)" using Bh(2) B small by linarith
  then obtain ph where ph: "round_double (2 * Bh) = Finite ph" "\<bar>ph - 2 * Bh\<bar> \<le> 2 / 2 ^ 53"
    using round_double_error [of "2 * Bh" 1] unfolding p53 by auto
  have "\<bar>sh - ph\<bar> < 2 powi (2 + 1)" using sh(2) ph(2) qh(2) Bh(2) q B small by linarith
  then obtain g where g: "round_double (sh - ph) = Finite g" "\<bar>g - (sh - ph)\<bar> \<le> 4 / 2 ^ 53"
    using round_double_error [of "sh - ph" 2] unfolding p53 by auto
  have tdB: "true_divide num den = Inr (Finite Bh)"
    using den Bh(1) by (simp add: true_divide_def B_def)
  have tdq: "true_divide 1 (int N) = Inr (Finite qh)"
    using N qh(1) by (simp add: true_divide_def q_def)
  have "inequality_coefficient_double x = Inr (Finite g)"
    unfolding inequality_coefficient_double_def Let_def
    using tdB tdq sh(1) ph(1) g(1) by (simp add: N_def num_def den_def float_sub_def)
  moreover have "inequality_coefficient x = 1 + q - 2 * B"
    by (simp add: inequality_coefficient_def Let_def N_def num_def den_def B_def q_def)
  moreover have "\<bar>g - (1 + q - 2 * B)\<bar> \<le> 11 / 2 ^ 53"
    using g(2) sh(2) ph(2) qh(2) Bh(2) by linarith
  ultimately show ?thesis by simp
qed

lemma compute_gini_defined:
  assumes "num_agents m = length (agents m)" and "\<forall>a \<in> set (agents m). 0 \<le> wealth a"
    and "0 < total_wealth m"
  shows "\<exists>g. compute_gini m = Inr g"
proof -
  define x where "x = sort (map wealth (agents m))"
  have "compute_gini m = inequality_coefficient_double x"
    using assms(1) by (intro compute_gini_refines) (simp_all add: x_def)
  moreover have "\<forall>w \<in> set x. 0 \<le> w" using assms(2) by (auto simp: x_def)
  moreover have "0 < sum_list x"
    using assms(3) by (simp add: x_def sum_list_sort_int total_wealth_def)
  ultimately show ?thesis using inequality_coefficient_double_accuracy [of x] by auto
qed

lemma compute_gini_zero_division:
  assumes "total_wealth m = 0"
  shows "compute_gini m = Inl ZeroDivisionError"
  using assms
  by (simp add: compute_gini_def Let_def sum_list_sort_int total_wealth_def true_divide_def)

subsection \<open>What a step keeps\<close>

lemma sum_list_update_int:
  fixes xs :: "int list"
  shows "k < length xs \<Longrightarrow> sum_list (xs[k := v]) = sum_list xs - xs ! k + v"
  by (induction xs arbitrary: k) (auto split: nat.splits)

lemma total_wealth_add:
  "a < length (agents m) \<Longrightarrow> total_wealth (add_wealth a d m) = total_wealth m + d"
  by (simp add: total_wealth_def add_wealth_def map_update sum_list_update_int)

lemma length_add_wealth [simp]: "length (agents (add_wealth a d m)) = length (agents m)"
  by (simp add: add_wealth_def)

lemma well_formed_random [simp]: "well_formed n w h (m\<lparr>random := s\<rparr>) = well_formed n w h m"
  by (simp add: well_formed_def refs_valid_def total_wealth_def)

lemma out_of_bounds_cell_insert [simp]: "out_of_bounds (cell_insert a p g) q = out_of_bounds g q"
  by (simp add: out_of_bounds_def cell_insert_def)

lemma out_of_bounds_cell_remove [simp]: "out_of_bounds (cell_remove a p g) q = out_of_bounds g q"
  by (simp add: out_of_bounds_def cell_remove_def)

lemma set_cells_cell_insert:
  "set (cells (cell_insert a p g) q) = (if q = p then insert a (set (cells g q)) else set (cells g q))"
  by (auto simp: cell_insert_def)

lemma set_cells_cell_remove:
  "set (cells (cell_remove a p g) q) = (if q = p then set (cells g q) - {a} else set (cells g q))"
  by (auto simp: cell_remove_def)

lemma grid_frame_cell_insert [simp]:
  "width (cell_insert a p g) = width g" "height (cell_insert a p g) = height g"
  "torus (cell_insert a p g) = torus g"
  by (simp_all add: cell_insert_def)

lemma grid_frame_cell_remove [simp]:
  "width (cell_remove a p g) = width g" "height (cell_remove a p g) = height g"
  "torus (cell_remove a p g) = torus g"
  by (simp_all add: cell_remove_def)

lemma well_formedD:
  assumes "well_formed n w h m"
  shows "num_agents m = n" "length (agents m) = n" "0 < n"
    "width (grid m) = w" "height (grid m) = h" "torus (grid m)" "refs_valid m"
    "\<And>a. a < n \<Longrightarrow> \<exists>p. pos (agents m ! a) = Some p \<and> \<not> out_of_bounds (grid m) p"
    "\<And>a. a < n \<Longrightarrow> 0 \<le> wealth (agents m ! a)"
    "total_wealth m = int n"
  using assms unfolding well_formed_def by simp_all

lemma refs_validD: "refs_valid m \<Longrightarrow> b \<in> set (cells (grid m) r) \<Longrightarrow> b < length (agents m)"
  unfolding refs_valid_def by blast

lemma move_agent_well_formed:
  assumes wf: "well_formed n w h m" and a: "a < n"
    and ok: "\<not> out_of_bounds (grid m) (normalize (grid m) q)"
  shows "well_formed n w h (snd (move_agent a q m))"
proof -
  note D = well_formedD [OF wf]
  define g where "g = (case pos (agents m ! a) of None \<Rightarrow> grid m | Some r \<Rightarrow> cell_remove a r (grid m))"
  define p where "p = normalize (grid m) q"
  define m' where "m' = m\<lparr>grid := cell_insert a p g, agents := (agents m)[a := (agents m ! a)\<lparr>pos := Some p\<rparr>]\<rparr>"
  have eq: "snd (move_agent a q m) = m'"
    using ok by (simp add: move_agent_def Let_def m'_def g_def p_def)
  have gf: "width g = w" "height g = h" "torus g" "\<And>r. out_of_bounds g r = out_of_bounds (grid m) r"
    using D(4,5,6) by (simp_all add: g_def split: option.splits)
  have sub: "\<And>r. set (cells g r) \<subseteq> set (cells (grid m) r)"
    by (auto simp: g_def set_cells_cell_remove split: option.splits if_splits)
  have "b < n" if "b \<in> set (cells (cell_insert a p g) r)" for r b
  proof -
    from that have "b = a \<or> b \<in> set (cells g r)"
      by (simp add: set_cells_cell_insert split: if_splits)
    with sub have "b = a \<or> b \<in> set (cells (grid m) r)" by blast
    with refs_validD [OF D(7)] a D(2) show ?thesis by blast
  qed
  then have rv: "refs_valid m'"
    using D(2) unfolding refs_valid_def m'_def by simp
  have placed: "\<exists>r. pos (agents m' ! b) = Some r \<and> \<not> out_of_bounds (grid m') r" if "b < n" for b
  proof (cases "b = a")
    case True
    then show ?thesis using ok a D(2) gf(4) by (simp add: m'_def p_def)
  next
    case False
    then show ?thesis using D(8) [OF that] gf(4) by (simp add: m'_def)
  qed
  have w: "map wealth (agents m') = map wealth (agents m)"
    by (simp add: m'_def map_update map_update_same)
  have nonneg: "0 \<le> wealth (agents m' ! b)" if "b < n" for b
    using D(9) [OF that] D(2) that by (cases "b = a") (simp_all add: m'_def)
  have "total_wealth m' = total_wealth m"
    using w by (simp add: total_wealth_def)
  then have tot: "total_wealth m' = int n" using D(10) by simp
  have "num_agents m' = n" "length (agents m') = n" "width (grid m') = w"
    "height (grid m') = h" "torus (grid m')"
    using D gf by (simp_all add: m'_def)
  then show ?thesis
    unfolding eq well_formed_def using rv placed nonneg tot D(3) by blast
qed

lemma normalize_in_bounds:
  "torus g \<Longrightarrow> 0 < width g \<Longrightarrow> 0 < height g \<Longrightarrow> \<not> out_of_bounds g (normalize g q)"
  by (cases q) (simp add: normalize_def out_of_bounds_def not_less not_le)

lemma well_formed_dims:
  assumes "well_formed n w h m"
  shows "0 < w \<and> 0 < h"
proof -
  note D = well_formedD [OF assms]
  from D(8) [OF D(3)] obtain x y where "\<not> out_of_bounds (grid m) (x, y)" by force
  then show ?thesis using D(4,5) by (auto simp: out_of_bounds_def)
qed

lemma move_well_formed:
  assumes wf: "well_formed n w h m" and a: "a < n"
  shows "well_formed n w h (snd (move a m))"
proof -
  note D = well_formedD [OF wf]
  from D(8) [OF a] obtain p where p: "pos (agents m ! a) = Some p" by blast
  show ?thesis
  proof (cases "choice (get_neighborhood (grid m) p 1 False) (random m)")
    case (Inl e)
    then show ?thesis using p wf by (simp add: move_def)
  next
    case (Inr r)
    obtain q s' where r: "r = (q, s')" by (cases r)
    let ?m = "m\<lparr>random := s'\<rparr>"
    have "\<not> out_of_bounds (grid ?m) (normalize (grid ?m) q)"
      using normalize_in_bounds [of "grid m" q] D(4,5,6) well_formed_dims [OF wf] by simp
    then have "well_formed n w h (snd (move_agent a q ?m))"
      using wf a by (intro move_agent_well_formed) simp_all
    then show ?thesis using p Inr r by (simp add: move_def)
  qed
qed

lemma move_agent_completes:
  "\<not> out_of_bounds (grid m) (normalize (grid m) q) \<Longrightarrow> fst (move_agent a q m) = None"
  by (simp add: move_agent_def Let_def)

lemma give_money_well_formed:
  assumes wf: "well_formed n w h m" and a: "a < n" and rich: "0 < wealth (agents m ! a)"
  shows "well_formed n w h (snd (give_money a m))"
proof -
  note D = well_formedD [OF wf]
  from D(8) [OF a] obtain p where p: "pos (agents m ! a) = Some p" by blast
  show ?thesis
  proof (cases "length (cells (grid m) p) > 1")
    case False
    with p wf show ?thesis by (simp add: give_money_def get_cell_list_contents_def)
  next
    case True
    then have "cells (grid m) p \<noteq> []" by auto
    then obtain other s' where ch: "choice (cells (grid m) p) (random m) = Inr (other, s')"
      using choice_nonempty by blast
    then have "other \<in> set (cells (grid m) p)" by (rule choice_member)
    then have o: "other < n" using refs_validD [OF D(7)] D(2) by blast
    define m' where "m' = add_wealth a (- 1) (add_wealth other 1 (m\<lparr>random := s'\<rparr>))"
    have eq: "snd (give_money a m) = m'"
      using p True ch by (simp add: give_money_def get_cell_list_contents_def m'_def)
    have ag: "agents m' = (agents m)[other := (agents m ! other)\<lparr>wealth := wealth (agents m ! other) + 1\<rparr>,
                a := ((agents m)[other := (agents m ! other)\<lparr>wealth := wealth (agents m ! other) + 1\<rparr>] ! a)
                       \<lparr>wealth := wealth ((agents m)[other := (agents m ! other)\<lparr>wealth := wealth (agents m ! other) + 1\<rparr>] ! a) - 1\<rparr>]"
      by (simp add: m'_def add_wealth_def)
    have fr: "grid m' = grid m" "num_agents m' = n" "length (agents m') = n"
      using D(1,2) by (simp_all add: m'_def add_wealth_def)
    have tot: "total_wealth m' = int n"
      using o a D(2,10) by (simp add: m'_def total_wealth_add) (simp add: total_wealth_def)
    have rv: "refs_valid m'"
      using D(7) fr D(2) by (simp add: refs_valid_def)
    have placed: "\<exists>r. pos (agents m' ! b) = Some r \<and> \<not> out_of_bounds (grid m') r" if "b < n" for b
      using D(8) [OF that] D(2) that o a unfolding fr(1) ag
      by (cases "b = a"; cases "b = other") (auto simp: nth_list_update)
    have nonneg: "0 \<le> wealth (agents m' ! b)" if "b < n" for b
      using D(9) [OF that] D(2) that o a rich unfolding ag
      by (cases "b = a"; cases "b = other") (auto simp: nth_list_update)
    show ?thesis
      unfolding eq well_formed_def using rv placed nonneg tot D(3,4,5,6) fr by simp
  qed
qed

lemma give_money_completes:
  assumes "pos (agents m ! a) \<noteq> None"
  shows "fst (give_money a m) = None"
proof -
  from assms obtain p where p: "pos (agents m ! a) = Some p" by blast
  show ?thesis
  proof (cases "length (cells (grid m) p) > 1")
    case False
    with p show ?thesis by (simp add: give_money_def get_cell_list_contents_def)
  next
    case True
    then have "cells (grid m) p \<noteq> []" by auto
    then obtain other s' where "choice (cells (grid m) p) (random m) = Inr (other, s')"
      using choice_nonempty by blast
    with p True show ?thesis by (simp add: give_money_def get_cell_list_contents_def)
  qed
qed

lemma MoneyAgent_step_well_formed:
  assumes wf: "well_formed n w h m" and a: "a < n"
  shows "well_formed n w h (snd (MoneyAgent_step a m))"
proof -
  obtain e m' where mv: "move a m = (e, m')" by (cases "move a m")
  have wf': "well_formed n w h m'" using move_well_formed [OF wf a] mv by simp
  show ?thesis
  proof (cases e)
    case (Some x)
    with mv wf' show ?thesis by (simp add: MoneyAgent_step_def)
  next
    case None
    with mv wf' give_money_well_formed [OF wf' a] show ?thesis
      by (simp add: MoneyAgent_step_def)
  qed
qed

lemma do_each_well_formed:
  "well_formed n w h m \<Longrightarrow> \<forall>a \<in> set as. a < n \<Longrightarrow> well_formed n w h (snd (do_each as m))"
proof (induction as arbitrary: m)
  case Nil
  then show ?case by simp
next
  case (Cons a as)
  obtain e m' where st: "MoneyAgent_step a m = (e, m')" by (cases "MoneyAgent_step a m")
  have wf': "well_formed n w h m'"
    using MoneyAgent_step_well_formed [of n w h m a] Cons.prems st by simp
  show ?case
  proof (cases e)
    case None
    with st Cons.IH [OF wf'] Cons.prems(2) show ?thesis by simp
  next
    case (Some x)
    with st wf' show ?thesis by simp
  qed
qed

subsection \<open>The activation order\<close>

lemma shuffle_loop_mset:
  "i < length x \<Longrightarrow> mset (fst (shuffle_loop i x s)) = mset x"
proof (induction i arbitrary: x s)
  case 0
  then show ?case by simp
next
  case (Suc i)
  define j where "j = shd s mod (Suc i + 1)"
  have j: "j < length x" using Suc.prems by (simp add: j_def) (meson less_Suc_eq_le less_le_trans mod_less_divisor not_less zero_less_Suc)
  let ?x = "x[Suc i := x ! j, j := x ! Suc i]"
  have "mset ?x = mset x" using j Suc.prems by (simp add: mset_swap)
  moreover have "mset (fst (shuffle_loop i ?x (stl s))) = mset ?x"
    using Suc.prems by (intro Suc.IH) simp
  ultimately show ?case by (simp add: randbelow_def j_def)
qed

lemma shuffle_mset: "mset (fst (shuffle x s)) = mset x"
  by (cases x) (simp_all add: shuffle_def shuffle_loop_mset)

lemma shuffle_set: "set (fst (shuffle x s)) = set x"
  using shuffle_mset [of x s] by (metis set_mset_mset)

lemma shuffle_loop_length [simp]: "length (fst (shuffle_loop i x s)) = length x"
  by (induction i arbitrary: x s) (simp_all add: randbelow_def)

lemma shuffle_length [simp]: "length (fst (shuffle x s)) = length x"
  by (simp add: shuffle_def)

lemma shuffle_loop_above:
  "i < k \<Longrightarrow> fst (shuffle_loop i x s) ! k = x ! k"
proof (induction i arbitrary: x s)
  case 0
  then show ?case by simp
next
  case (Suc i)
  define j where "j = shd s mod (Suc i + 1)"
  have "j < Suc i + 1" unfolding j_def by (rule mod_less_divisor) simp
  with Suc.prems have "j \<noteq> k" "Suc i \<noteq> k" "i < k" by simp_all
  then have "fst (shuffle_loop i (x[Suc i := x ! j, j := x ! Suc i]) (stl s)) ! k = x ! k"
    by (simp add: Suc.IH)
  then show ?case by (simp add: randbelow_def j_def)
qed

lemma shuffle_last:
  assumes "2 \<le> n"
  shows "last (fst (shuffle [0..<n] s)) = shd s mod n"
proof -
  obtain i where n: "n = Suc (Suc i)" using assms by (metis Suc_le_D numeral_2_eq_2 Suc_le_mono)
  define j where "j = shd s mod n"
  have j: "j < n" using assms by (simp add: j_def)
  define x0 where "x0 = [0..<n]"
  have x0: "length x0 = n" "x0 ! j = j" using j by (simp_all add: x0_def)
  define x' where "x' = x0[Suc i := x0 ! j, j := x0 ! Suc i]"
  have "x' ! Suc i = j"
    using j n x0 by (cases "j = Suc i") (simp_all add: x'_def)
  then have "fst (shuffle_loop i x' (stl s)) ! Suc i = j"
    by (simp add: shuffle_loop_above)
  moreover have "fst (shuffle x0 s) = fst (shuffle_loop i x' (stl s))"
    using x0(1) by (simp add: shuffle_def n randbelow_def x'_def j_def)
  moreover have l: "length (fst (shuffle x0 s)) = Suc (Suc i)"
    using n x0(1) by simp
  moreover have "fst (shuffle x0 s) \<noteq> []"
    using l by (metis length_0_conv nat.distinct(1))
  ultimately have "last (fst (shuffle x0 s)) = j" by (simp add: last_conv_nth del: shuffle_length)
  then show ?thesis by (simp add: x0_def j_def)
qed

lemma shuffle_loop_reaches:
  assumes "length ys = length x" and "i < length x"
    and "mset (take (Suc i) ys) = mset (take (Suc i) x)"
    and "drop (Suc i) ys = drop (Suc i) x"
  shows "\<exists>s. fst (shuffle_loop i x s) = ys"
  using assms
proof (induction i arbitrary: x)
  case 0
  have "take (Suc 0) ys = [ys ! 0]" "take (Suc 0) x = [x ! 0]"
    using "0.prems"(1,2) by (simp_all add: take_Suc_conv_app_nth)
  with "0.prems"(3) have "take (Suc 0) ys = take (Suc 0) x" by simp
  with "0.prems"(4) have "ys = x" by (metis append_take_drop_id)
  then show ?case by simp
next
  case (Suc i)
  define v where "v = ys ! Suc i"
  have ly: "Suc i < length ys" using Suc.prems(1,2) by simp
  have ty: "take (Suc (Suc i)) ys = take (Suc i) ys @ [v]"
    using ly by (simp add: take_Suc_conv_app_nth v_def)
  then have "v \<in> set (take (Suc (Suc i)) x)"
    using Suc.prems(3) by (metis in_set_conv_decomp mset_eq_setD)
  then obtain j where j: "j < Suc (Suc i)" "j < length x" "x ! j = v"
    by (auto simp: in_set_conv_nth)
  define x' where "x' = x[Suc i := x ! j, j := x ! Suc i]"
  have len: "length x' = length x" by (simp add: x'_def)
  have at: "x' ! Suc i = v"
    using j Suc.prems(2) by (cases "j = Suc i") (simp_all add: x'_def)
  have dr: "drop (Suc (Suc i)) x' = drop (Suc (Suc i)) x"
    using j(1) by (simp add: x'_def)
  have d: "drop (Suc i) ys = drop (Suc i) x'"
  proof -
    have "drop (Suc i) ys = v # drop (Suc (Suc i)) ys"
      using ly by (simp add: Cons_nth_drop_Suc v_def)
    moreover have "drop (Suc i) x' = v # drop (Suc (Suc i)) x'"
      using Suc.prems(2) len at by (metis Cons_nth_drop_Suc)
    ultimately show ?thesis using Suc.prems(4) dr by simp
  qed
  have tx': "take (Suc (Suc i)) x' = take (Suc i) x' @ [v]"
    using Suc.prems(2) len at by (simp add: take_Suc_conv_app_nth)
  define px where "px = take (Suc (Suc i)) x"
  have px: "j < length px" "Suc i < length px" "px ! j = x ! j" "px ! Suc i = x ! Suc i"
    using j(1) Suc.prems(2) by (simp_all add: px_def)
  have "take (Suc (Suc i)) x' = px[Suc i := px ! j, j := px ! Suc i]"
    using j(1) unfolding px(3,4) by (simp add: x'_def px_def take_update_swap)
  moreover have "mset (px[Suc i := px ! j, j := px ! Suc i]) = mset px"
    using px(1,2) by (rule mset_swap)
  ultimately have "mset (take (Suc (Suc i)) x') = mset (take (Suc (Suc i)) x)"
    by (simp add: px_def)
  then have "add_mset v (mset (take (Suc i) ys)) = add_mset v (mset (take (Suc i) x'))"
    using Suc.prems(3) ty tx' by simp
  then have m: "mset (take (Suc i) ys) = mset (take (Suc i) x')"
    by (simp only: add_mset_add_mset_same_iff)
  have "i < length x'" using Suc.prems(2) len by simp
  from Suc.IH [OF _ this m d] Suc.prems(1) len
  obtain s' where s': "fst (shuffle_loop i x' s') = ys" by auto
  have "fst (shuffle_loop (Suc i) x (j ## s')) = ys"
    using j(1) s' by (simp add: randbelow_def x'_def)
  then show ?case by blast
qed

lemma shuffle_reaches:
  assumes "mset ys = mset x"
  shows "\<exists>s. fst (shuffle x s) = ys"
proof (cases x)
  case Nil
  with assms show ?thesis by (simp add: shuffle_def)
next
  case (Cons a as)
  have l: "length ys = length x" using assms by (rule mset_eq_length)
  have "\<exists>s. fst (shuffle_loop (length x - 1) x s) = ys"
    using assms l Cons by (intro shuffle_loop_reaches) simp_all
  then show ?thesis by (simp add: shuffle_def)
qed

lemma shuffle_two_orders:
  assumes "2 \<le> n"
  shows "fst (shuffle [0..<n] (sconst 0)) \<noteq> fst (shuffle [0..<n] (sconst 1))"
proof -
  have "last (fst (shuffle [0..<n] (sconst 0))) = 0" "last (fst (shuffle [0..<n] (sconst 1))) = 1"
    using assms by (simp_all add: shuffle_last)
  then show ?thesis by auto
qed

lemma shuffle_do_well_formed:
  assumes "well_formed n w h m"
  shows "well_formed n w h (snd (shuffle_do m))"
proof -
  obtain order s' where sh: "shuffle [0..<length (agents m)] (random m) = (order, s')"
    by (cases "shuffle [0..<length (agents m)] (random m)")
  have "set order = {0..<n}"
    using shuffle_set [of "[0..<length (agents m)]" "random m"] sh well_formedD(2) [OF assms] by simp
  then have "\<forall>a \<in> set order. a < n" by simp
  then have "well_formed n w h (snd (do_each order (m\<lparr>random := s'\<rparr>)))"
    using assms by (intro do_each_well_formed) simp_all
  with sh show ?thesis by (simp add: shuffle_do_def)
qed

subsection \<open>The metrics capture\<close>

lemma well_formed_datacollector [simp]:
  "well_formed n w h (m\<lparr>datacollector := d\<rparr>) = well_formed n w h m"
  by (simp add: well_formed_def refs_valid_def total_wealth_def)

lemma collect_well_formed: "well_formed n w h m \<Longrightarrow> well_formed n w h (snd (collect m))"
  by (simp add: collect_def split: sum.splits)

lemma collect_completes:
  assumes "well_formed n w h m"
  shows "fst (collect m) = None"
proof -
  note D = well_formedD [OF assms]
  have "\<forall>a \<in> set (agents m). 0 \<le> wealth a"
    using D(2,9) by (auto simp: in_set_conv_nth)
  then obtain g where "compute_gini m = Inr g"
    using compute_gini_defined [of m] D(1,2,3,10) by auto
  then show ?thesis by (simp add: collect_def)
qed

lemma MoneyModel_step_well_formed:
  assumes "well_formed n w h m"
  shows "well_formed n w h (snd (MoneyModel_step m))"
proof -
  obtain e m' where sd: "shuffle_do m = (e, m')" by (cases "shuffle_do m")
  have wf': "well_formed n w h m'" using shuffle_do_well_formed [OF assms] sd by simp
  show ?thesis
  proof (cases e)
    case None
    with sd collect_well_formed [OF wf'] show ?thesis by (simp add: MoneyModel_step_def)
  next
    case (Some x)
    with sd wf' show ?thesis by (simp add: MoneyModel_step_def)
  qed
qed

subsection \<open>Construction\<close>

lemma integers_range:
  assumes "integers 0 hi k s = Inr (xs, s')"
  shows "length xs = k \<and> (\<forall>x \<in> set xs. 0 \<le> x \<and> x < hi)"
  using assms by (auto simp: integers_def split: if_splits)

lemma integers_defined: "0 < hi \<Longrightarrow> \<exists>xs s'. integers 0 hi k s = Inr (xs, s')"
  by (simp add: integers_def)

lemma place_agent_unplaced:
  assumes u: "unplaced n w h m" and a: "a < n" and i: "0 \<le> i" "i < w" and j: "0 \<le> j" "j < h"
  shows "fst (place_agent a (i, j) m) = None"
    and "unplaced n w h (snd (place_agent a (i, j) m))"
    and "pos (agents (snd (place_agent a (i, j) m)) ! a) \<noteq> None"
    and "\<And>b. pos (agents m ! b) \<noteq> None \<Longrightarrow> pos (agents (snd (place_agent a (i, j) m)) ! b) \<noteq> None"
proof -
  have U: "num_agents m = n" "length (agents m) = n" "width (grid m) = w" "height (grid m) = h"
    "torus (grid m)" "refs_valid m" "\<And>b. b < n \<Longrightarrow> wealth (agents m ! b) = 1"
    "\<And>b p. b < n \<Longrightarrow> pos (agents m ! b) = Some p \<Longrightarrow> \<not> out_of_bounds (grid m) p"
    using u unfolding unplaced_def by (simp_all, blast)
  have nz: "normalize (grid m) (i, j) = (i, j)"
    using i j U(3,4) by (simp add: normalize_def)
  have ib: "\<not> out_of_bounds (grid m) (i, j)"
    using i j U(3,4) by (simp add: out_of_bounds_def)
  define m' where "m' = m\<lparr>grid := cell_insert a (i, j) (grid m),
      agents := (agents m)[a := (agents m ! a)\<lparr>pos := Some (i, j)\<rparr>]\<rparr>"
  have eq: "place_agent a (i, j) m = (None, m')"
    using nz ib by (simp add: place_agent_def m'_def Let_def)
  show "fst (place_agent a (i, j) m) = None" by (simp add: eq)
  show "pos (agents (snd (place_agent a (i, j) m)) ! a) \<noteq> None"
    using a U(2) by (simp add: eq m'_def)
  show "pos (agents (snd (place_agent a (i, j) m)) ! b) \<noteq> None" if "pos (agents m ! b) \<noteq> None" for b
    using that a U(2) by (cases "b = a") (simp_all add: eq m'_def)
  have "c < n" if "c \<in> set (cells (cell_insert a (i, j) (grid m)) r)" for r c
  proof -
    from that have "c = a \<or> c \<in> set (cells (grid m) r)"
      by (simp add: set_cells_cell_insert split: if_splits)
    with refs_validD [OF U(6)] a U(2) show ?thesis by blast
  qed
  then have rv: "refs_valid m'" using U(2) unfolding refs_valid_def m'_def by simp
  have w1: "wealth (agents m' ! b) = 1" if "b < n" for b
    using U(7) [OF that] U(2) that by (cases "b = a") (simp_all add: m'_def)
  have pl: "\<not> out_of_bounds (grid m') p" if "b < n" "pos (agents m' ! b) = Some p" for b p
  proof (cases "b = a")
    case True
    with that a U(2) have "p = (i, j)" by (simp add: m'_def)
    with ib show ?thesis by (simp add: m'_def)
  next
    case False
    with that U(8) [of b p] show ?thesis by (simp add: m'_def)
  qed
  show "unplaced n w h (snd (place_agent a (i, j) m))"
    unfolding eq unplaced_def using rv w1 pl U(1-5) by (simp add: m'_def)
qed

lemma place_all_unplaced:
  assumes "unplaced n w h m"
    and "\<forall>(a, i, j) \<in> set ps. a < n \<and> 0 \<le> i \<and> i < w \<and> 0 \<le> j \<and> j < h"
  shows "fst (place_all ps m) = None \<and> unplaced n w h (snd (place_all ps m)) \<and>
         (\<forall>b. b \<in> fst ` set ps \<or> pos (agents m ! b) \<noteq> None
              \<longrightarrow> pos (agents (snd (place_all ps m)) ! b) \<noteq> None)"
  using assms
proof (induction ps arbitrary: m)
  case Nil
  then show ?case by simp
next
  case (Cons t ps)
  obtain a i j where t: "t = (a, i, j)" by (cases t)
  from Cons.prems(2) t have r: "a < n" "0 \<le> i" "i < w" "0 \<le> j" "j < h" by simp_all
  note P = place_agent_unplaced [OF Cons.prems(1) r]
  obtain m' where pa: "place_agent a (i, j) m = (None, m')"
    using P(1) by (cases "place_agent a (i, j) m") simp
  have u': "unplaced n w h m'" using P(2) pa by simp
  have rest: "\<forall>(a, i, j) \<in> set ps. a < n \<and> 0 \<le> i \<and> i < w \<and> 0 \<le> j \<and> j < h"
    using Cons.prems(2) by simp
  note IH = Cons.IH [OF u' rest]
  have "pos (agents (snd (place_all ps m')) ! b) \<noteq> None"
    if "b \<in> fst ` set (t # ps) \<or> pos (agents m ! b) \<noteq> None" for b
  proof -
    from that have "b \<in> fst ` set ps \<or> pos (agents m' ! b) \<noteq> None"
      using P(3,4) pa t by auto
    with IH show ?thesis by blast
  qed
  with IH show ?case by (simp add: t pa)
qed

lemma unplaced_initial:
  "unplaced n w h \<lparr>num_agents = n,
       grid = \<lparr>width = w, height = h, torus = True, cells = (\<lambda>p. [])\<rparr>,
       agents = replicate n MoneyAgent_init, random = r, rng = g,
       datacollector = \<lparr>model_vars = [], agent_records = []\<rparr>\<rparr>"
  by (simp add: unplaced_def refs_valid_def MoneyAgent_init_def)

lemma unplaced_wealth:
  assumes "unplaced n w h m"
  shows "map wealth (agents m) = replicate n 1"
  using assms by (simp add: unplaced_def list_eq_iff_nth_eq)

lemma unplaced_well_formed:
  assumes u: "unplaced n w h m" and n: "0 < n"
    and placed: "\<forall>b<n. pos (agents m ! b) \<noteq> None"
  shows "well_formed n w h m"
proof -
  have "total_wealth m = int n"
    using unplaced_wealth [OF u] by (simp add: total_wealth_def sum_list_replicate)
  moreover have "\<exists>p. pos (agents m ! b) = Some p \<and> \<not> out_of_bounds (grid m) p" if "b < n" for b
    using u placed that unfolding unplaced_def by auto
  ultimately show ?thesis
    using u n unfolding well_formed_def unplaced_def by simp
qed

lemma fst_set_zip_upt:
  "length xs = n \<Longrightarrow> fst ` set (zip [0..<n] xs) = {0..<n}"
  by (metis diff_zero length_upt map_fst_zip set_map set_upt)

lemma MoneyModel_init_placement:
  assumes n: "0 < n" and w: "0 < w" and h: "0 < h"
  obtains m1 where "well_formed n w h m1" "map wealth (agents m1) = replicate n 1"
    "datacollector m1 = \<lparr>model_vars = [], agent_records = []\<rparr>"
    "MoneyModel_init py_gen np_gen entropy n w h seed =
       (case collect m1 of (Some e, _) \<Rightarrow> Inl e | (None, m) \<Rightarrow> Inr m)"
proof -
  obtain random0 rng0 where mi: "Model_init py_gen np_gen entropy seed = (random0, rng0)"
    by (cases "Model_init py_gen np_gen entropy seed")
  obtain x rng1 where ix: "integers 0 w n rng0 = Inr (x, rng1)"
    using integers_defined [OF w] by blast
  obtain y rng2 where iy: "integers 0 h n rng1 = Inr (y, rng2)"
    using integers_defined [OF h] by blast
  define m0 where "m0 = \<lparr>num_agents = n,
       grid = \<lparr>width = w, height = h, torus = True, cells = (\<lambda>p. [])\<rparr>,
       agents = replicate n MoneyAgent_init, random = random0, rng = rng2,
       datacollector = \<lparr>model_vars = [], agent_records = []\<rparr>\<rparr>"
  define ps where "ps = zip [0..<n] (zip x y)"
  have u0: "unplaced n w h m0" unfolding m0_def by (rule unplaced_initial)
  have lx: "length x = n" "\<forall>i \<in> set x. 0 \<le> i \<and> i < w"
    using integers_range [OF ix] by simp_all
  have ly: "length y = n" "\<forall>j \<in> set y. 0 \<le> j \<and> j < h"
    using integers_range [OF iy] by simp_all
  have "a < n \<and> 0 \<le> i \<and> i < w \<and> 0 \<le> j \<and> j < h" if "(a, i, j) \<in> set ps" for a i j
  proof -
    from that have "a \<in> set [0..<n]" and ij: "(i, j) \<in> set (zip x y)"
      unfolding ps_def by (auto dest: set_zip_leftD set_zip_rightD)
    from ij have "i \<in> set x" "j \<in> set y" by (auto dest: set_zip_leftD set_zip_rightD)
    with \<open>a \<in> set [0..<n]\<close> lx(2) ly(2) show ?thesis by simp
  qed
  then have rng: "\<forall>(a, i, j) \<in> set ps. a < n \<and> 0 \<le> i \<and> i < w \<and> 0 \<le> j \<and> j < h"
    by blast
  note P = place_all_unplaced [OF u0 rng]
  obtain m1 where pa: "place_all ps m0 = (None, m1)"
    using P by (cases "place_all ps m0") simp
  have u1: "unplaced n w h m1" using P pa by simp
  have "fst ` set ps = {0..<n}"
    unfolding ps_def using lx(1) ly(1) by (intro fst_set_zip_upt) simp
  then have "\<forall>b<n. pos (agents m1 ! b) \<noteq> None" using P pa by simp
  then have wf: "well_formed n w h m1" using u1 n by (intro unplaced_well_formed)
  have dc: "datacollector (snd (place_all qs m)) = datacollector m" for qs m
  proof (induction qs arbitrary: m)
    case Nil
    then show ?case by simp
  next
    case (Cons t qs)
    obtain a i j where t: "t = (a, i, j)" by (cases t)
    obtain e m' where pl: "place_agent a (i, j) m = (e, m')" by (cases "place_agent a (i, j) m")
    have "datacollector m' = datacollector m"
      using pl by (auto simp: place_agent_def Let_def split: if_splits)
    then show ?case using Cons.IH [of m'] pl t by (cases e) simp_all
  qed
  have d1: "datacollector m1 = \<lparr>model_vars = [], agent_records = []\<rparr>"
    using dc [of ps m0] pa by (simp add: m0_def)
  have "MoneyModel_init py_gen np_gen entropy n w h seed =
       (case collect m1 of (Some e, _) \<Rightarrow> Inl e | (None, m) \<Rightarrow> Inr m)"
    using mi ix iy pa unfolding MoneyModel_init_def m0_def ps_def by (simp add: Let_def)
  with wf unplaced_wealth [OF u1] d1 show ?thesis by (rule that)
qed

lemma MoneyModel_init_rejects:
  assumes "n = 0 \<or> w \<le> 0 \<or> h \<le> 0"
  shows "\<exists>e. MoneyModel_init py_gen np_gen entropy n w h seed = Inl e"
proof (cases "n = 0")
  case True
  then show ?thesis
    by (simp add: MoneyModel_init_def Model_init_def integers_def collect_def compute_gini_def double_eval
        split: prod.splits)
next
  case False
  with assms show ?thesis
    by (auto simp: MoneyModel_init_def Model_init_def integers_def Let_def split: prod.splits)
qed

lemma MoneyModel_init_Inr:
  assumes "MoneyModel_init py_gen np_gen entropy n w h seed = Inr m"
  shows "well_formed n w h m" and "map wealth (agents m) = replicate n 1"
    and "length (model_vars (datacollector m)) = 1"
proof -
  have pos: "0 < n" "0 < w" "0 < h"
    using MoneyModel_init_rejects [of n w h py_gen np_gen entropy seed] assms by force+
  obtain m1 where m1: "well_formed n w h m1" "map wealth (agents m1) = replicate n 1"
    "datacollector m1 = \<lparr>model_vars = [], agent_records = []\<rparr>"
    "MoneyModel_init py_gen np_gen entropy n w h seed =
       (case collect m1 of (Some e, _) \<Rightarrow> Inl e | (None, m) \<Rightarrow> Inr m)"
    using MoneyModel_init_placement [OF pos] by blast
  from m1(4) assms have c: "collect m1 = (None, m)"
    by (cases "collect m1") (auto split: option.splits)
  show "well_formed n w h m" using collect_well_formed [OF m1(1)] c by simp
  show "map wealth (agents m) = replicate n 1"
    using c m1(2) by (auto simp: collect_def split: sum.splits)
  show "length (model_vars (datacollector m)) = 1"
    using c m1(3) by (auto simp: collect_def split: sum.splits)
qed

lemma MoneyModel_init_defined:
  assumes "0 < n" "0 < w" "0 < h"
  shows "\<exists>m. MoneyModel_init py_gen np_gen entropy n w h seed = Inr m"
proof -
  obtain m1 where m1: "well_formed n w h m1"
    "MoneyModel_init py_gen np_gen entropy n w h seed =
       (case collect m1 of (Some e, _) \<Rightarrow> Inl e | (None, m) \<Rightarrow> Inr m)"
    using MoneyModel_init_placement [OF assms] by blast
  from collect_completes [OF m1(1)] obtain m where "collect m1 = (None, m)"
    by (cases "collect m1") simp
  with m1(2) show ?thesis by simp
qed

lemma reachable_well_formed:
  "reachable m \<Longrightarrow> \<exists>n w h. well_formed n w h m"
proof (induction rule: reachable.induct)
  case (constructed py_gen np_gen entropy n w h seed m)
  then show ?case using MoneyModel_init_Inr(1) by blast
next
  case (stepped m)
  then show ?case using MoneyModel_step_well_formed by blast
qed

subsection \<open>Reachable states\<close>

lemma example_model_constructed:
  "MoneyModel_init (\<lambda>k. sconst (nat k)) (\<lambda>k. sconst (nat k)) e 2 10 10 (Some 0) = Inr example_model"
  by (simp add: MoneyModel_init_def Model_init_def integers_def place_agent_def normalize_def
      out_of_bounds_def cell_insert_def MoneyAgent_init_def collect_def compute_gini_def double_eval
      enumerate_eq_zip Let_def example_model_def eval_nat_numeral upt_rec)

lemma example_model_reachable: "reachable example_model"
  using example_model_constructed by (rule reachable.constructed)

lemma run_well_formed: "well_formed n w h m \<Longrightarrow> well_formed n w h (run k m)"
  by (induction k arbitrary: m) (simp_all add: MoneyModel_step_well_formed)

text \<open>
  C1. Wealth conservation: in every reachable state, the wealth of all agents sums to
  the same value after a call to \<^verbatim>\<open>MoneyModel.step\<close> as before it, and so after any
  number of calls, whatever the population size.
\<close>

theorem wealth_conservation:
  assumes "reachable m"
  shows "total_wealth (snd (MoneyModel_step m)) = total_wealth m \<and>
         total_wealth (run k m) = total_wealth m"
proof -
  obtain n w h where wf: "well_formed n w h m"
    using reachable_well_formed [OF assms] by blast
  have "total_wealth (snd (MoneyModel_step m)) = int n"
    using MoneyModel_step_well_formed [OF wf] by (rule well_formedD(10))
  moreover have "total_wealth (run k m) = int n"
    using run_well_formed [OF wf] by (rule well_formedD(10))
  ultimately show ?thesis using well_formedD(10) [OF wf] by simp
qed

theorem wealth_conservation_witness:
  "reachable example_model \<and>
   total_wealth (snd (MoneyModel_step example_model)) = total_wealth example_model \<and>
   total_wealth (run 3 example_model) = total_wealth example_model"
  using example_model_reachable wealth_conservation [OF example_model_reachable, of 3] by simp

text \<open>
  C6. Non-negativity: in every reachable state (after construction and after any
  number of steps) the wealth of every agent is an integer that is not negative.
\<close>

theorem wealth_nonnegative:
  assumes "reachable m"
  shows "\<forall>a \<in> set (agents m). 0 \<le> wealth a"
proof -
  obtain n w h where wf: "well_formed n w h m"
    using reachable_well_formed [OF assms] by blast
  show ?thesis
    using well_formedD(2,9) [OF wf] by (auto simp: in_set_conv_nth)
qed

theorem wealth_nonnegative_witness:
  "reachable (run 2 example_model) \<and> list_all (\<lambda>a. 0 \<le> wealth a) (agents (run 2 example_model))"
proof -
  have "reachable (run k m)" if "reachable m" for k m
    using that by (induction k arbitrary: m) (simp_all add: reachable.stepped)
  then have r: "reachable (run 2 example_model)" using example_model_reachable by blast
  show ?thesis using r wealth_nonnegative [OF r] by (simp add: list_all_iff)
qed

text \<open>
  C10. Initial wealth: the constructor gives every agent wealth 1, so a model
  constructed with agent count \<open>n\<close> has total wealth \<open>n\<close>, and keeps it through any number
  of steps.
\<close>

theorem initial_wealth:
  assumes "MoneyModel_init py_gen np_gen entropy n w h seed = Inr m"
  shows "length (agents m) = n \<and> (\<forall>a \<in> set (agents m). wealth a = 1) \<and>
         total_wealth m = int n \<and> total_wealth (run k m) = int n"
proof -
  note I = MoneyModel_init_Inr [OF assms]
  have "\<forall>a \<in> set (agents m). wealth a = 1"
  proof
    fix a assume "a \<in> set (agents m)"
    then have "wealth a \<in> set (map wealth (agents m))" by simp
    then show "wealth a = 1" unfolding I(2) by simp
  qed
  then show ?thesis
    using well_formedD(2,10) [OF I(1)] well_formedD(10) [OF run_well_formed [OF I(1)]] by simp
qed

theorem initial_wealth_witness:
  "MoneyModel_init (\<lambda>k. sconst (nat k)) (\<lambda>k. sconst (nat k)) 7 2 10 10 (Some 0) = Inr example_model \<and>
   length (agents example_model) = 2 \<and> list_all (\<lambda>a. wealth a = 1) (agents example_model) \<and>
   total_wealth example_model = 2 \<and> total_wealth (run 5 example_model) = 2"
  using example_model_constructed [of 7] initial_wealth [OF example_model_constructed [of 7], of 5]
  by (simp add: list_all_iff)

subsection \<open>The inequality coefficient\<close>

lemma uneven_model_coefficient:
  "compute_gini uneven_model = Inr (Finite (2882303761517117 / 2 ^ 53))"
proof -
  have x: "sort (map wealth (agents uneven_model)) = [0, 1, 1, 1, 2]"
    by (simp add: uneven_model_def)
  have n: "int (num_agents uneven_model) = 5" by (simp add: uneven_model_def)
  have B: "true_divide 11 25 = Inr (Finite (7926335344172073 / 2 ^ 54))"
    by (simp add: double_eval)
  have q: "true_divide 1 5 = Inr (Finite (7205759403792794 / 2 ^ 55))"
    by (simp add: double_eval)
  have s: "float_add (Finite 1) (Finite (7205759403792794 / 2 ^ 55)) = Finite (5404319552844595 / 2 ^ 52)"
    by (simp add: double_eval)
  have p: "float_mul (Finite 2) (Finite (7926335344172073 / 2 ^ 54)) = Finite (7926335344172073 / 2 ^ 53)"
    by (simp add: double_eval)
  have d: "float_sub (Finite (5404319552844595 / 2 ^ 52)) (Finite (7926335344172073 / 2 ^ 53)) =
           Finite (2882303761517117 / 2 ^ 53)"
    by (simp add: double_eval)
  have num: "(\<Sum>(i, xi)\<leftarrow>enumerate 0 [0, 1, 1, 1, 2 :: int]. xi * (5 - int i)) = 11"
    by (simp add: enumerate_eq_zip upt_rec)
  have den: "5 * sum_list [0, 1, 1, 1, 2 :: int] = 25" by simp
  show ?thesis
    by (simp only: compute_gini_def Let_def x n num den B q s p d sum.case)
qed

text \<open>
  C4. The claim: for a model of \<open>N > 0\<close> agents whose wealth sums to a positive value,
  \<^verbatim>\<open>compute_gini\<close> returns exactly \<open>1 + 1/N - 2B\<close>, where \<open>x\<close> is the wealth sorted ascending
  and \<open>B = (\<Sum>i<N. x[i] * (N - i)) / (N * \<Sum>x)\<close>. \<^verbatim>\<open>compute_gini\<close> computes in floats: for
  five agents with the wealth 1, 1, 1, 0 and 2 the formula gives \<open>8/25\<close>, and
  \<^verbatim>\<open>compute_gini\<close> returns the float \<open>2882303761517117 / 2 ^ 53\<close>, which Python prints as
  0.31999999999999995.
\<close>

theorem compute_gini_formula_counterexample:
  "num_agents uneven_model = length (agents uneven_model) \<and>
   0 < num_agents uneven_model \<and> 0 < total_wealth uneven_model \<and>
   sorted [0, 1, 1, 1, 2 :: int] \<and>
   mset [0, 1, 1, 1, 2] = mset (map wealth (agents uneven_model)) \<and>
   inequality_coefficient [0, 1, 1, 1, 2] = 8 / 25 \<and>
   compute_gini uneven_model = Inr (Finite (2882303761517117 / 2 ^ 53)) \<and>
   compute_gini uneven_model \<noteq> Inr (Finite (inequality_coefficient [0, 1, 1, 1, 2]))"
proof -
  have h: "num_agents uneven_model = length (agents uneven_model)" "0 < num_agents uneven_model"
    "0 < total_wealth uneven_model" "sorted [0, 1, 1, 1, 2 :: int]"
    "mset [0, 1, 1, 1, 2] = mset (map wealth (agents uneven_model))"
    by (simp_all add: uneven_model_def total_wealth_def)
  have e: "inequality_coefficient [0, 1, 1, 1, 2] = 8 / 25"
    by (simp add: inequality_coefficient_def Let_def lessThan_Suc eval_nat_numeral)
  have "compute_gini uneven_model \<noteq> Inr (Finite (inequality_coefficient [0, 1, 1, 1, 2]))"
    unfolding uneven_model_coefficient e by simp
  with h e uneven_model_coefficient show ?thesis by blast
qed

text \<open>
  C4, as the code has it: for a model of \<open>N > 0\<close> agents whose wealth sums to a positive
  value, \<^verbatim>\<open>compute_gini\<close> gives what the formula \<open>1 + 1/N - 2B\<close> gives when it is carried
  out in floats on the wealth \<open>x\<close> sorted ascending: \<open>B\<close> and \<open>1/N\<close> are the correctly rounded
  quotients of the integers, and the sum, the product and the difference are rounded to
  the nearest float. When no wealth is negative, as in every reachable state, that is a
  finite float within \<open>11 / 2 ^ 53\<close> of the exact value of the formula.
\<close>

theorem compute_gini_formula:
  assumes "num_agents m = length (agents m)" and "0 < num_agents m" and "0 < total_wealth m"
    and "sorted x" and "mset x = mset (map wealth (agents m))"
  shows "compute_gini m = inequality_coefficient_double x \<and>
         ((\<forall>w \<in> set x. 0 \<le> w) \<longrightarrow>
            (\<exists>g. compute_gini m = Inr (Finite g) \<and> \<bar>g - inequality_coefficient x\<bar> \<le> 11 / 2 ^ 53))"
proof -
  have eq: "compute_gini m = inequality_coefficient_double x"
    using assms(1,4,5) by (rule compute_gini_refines)
  have "sum_list x = total_wealth m"
    using assms(5) by (metis sum_mset_sum_list total_wealth_def)
  then have "0 < sum_list x" using assms(3) by simp
  then show ?thesis
    using eq inequality_coefficient_double_accuracy [of x] by auto
qed

theorem compute_gini_formula_witness:
  "num_agents uneven_model = length (agents uneven_model) \<and>
   0 < num_agents uneven_model \<and> 0 < total_wealth uneven_model \<and>
   sorted [0, 1, 1, 1, 2 :: int] \<and>
   mset [0, 1, 1, 1, 2] = mset (map wealth (agents uneven_model)) \<and>
   list_all (\<lambda>w. 0 \<le> w) [0, 1, 1, 1, 2 :: int] \<and>
   compute_gini uneven_model = inequality_coefficient_double [0, 1, 1, 1, 2] \<and>
   (\<exists>g. compute_gini uneven_model = Inr (Finite g) \<and>
        \<bar>g - inequality_coefficient [0, 1, 1, 1, 2]\<bar> \<le> 11 / 2 ^ 53)"
proof -
  have h: "num_agents uneven_model = length (agents uneven_model)" "0 < num_agents uneven_model"
    "0 < total_wealth uneven_model" "sorted [0, 1, 1, 1, 2 :: int]"
    "mset [0, 1, 1, 1, 2] = mset (map wealth (agents uneven_model))"
    by (simp_all add: uneven_model_def total_wealth_def)
  have nn: "\<forall>w \<in> set [0, 1, 1, 1, 2 :: int]. 0 \<le> w" by simp
  then have la: "list_all (\<lambda>w. 0 \<le> w) [0, 1, 1, 1, 2 :: int]" by (simp add: list_all_iff)
  from compute_gini_formula [OF h] nn
  have "compute_gini uneven_model = inequality_coefficient_double [0, 1, 1, 1, 2]"
    and "\<exists>g. compute_gini uneven_model = Inr (Finite g) \<and>
             \<bar>g - inequality_coefficient [0, 1, 1, 1, 2]\<bar> \<le> 11 / 2 ^ 53"
    by blast+
  with h la show ?thesis by blast
qed

text \<open>
  C5. The claim: with \<open>N > 0\<close> agents whose wealth sums to zero, the coefficient is a
  defined degenerate value, not a crash. \<^verbatim>\<open>compute_gini\<close> has no guard: for one agent of
  wealth 0 the division raises ZeroDivisionError.
\<close>

theorem compute_gini_zero_wealth_counterexample:
  "0 < num_agents broke_model \<and> total_wealth broke_model = 0 \<and>
   compute_gini broke_model = Inl ZeroDivisionError"
proof -
  have z: "total_wealth broke_model = 0" by (simp add: broke_model_def total_wealth_def)
  have "0 < num_agents broke_model" by (simp add: broke_model_def)
  with z compute_gini_zero_division [OF z] show ?thesis by simp
qed

text \<open>
  C5, as the code has it: when the wealth sums to zero, \<^verbatim>\<open>compute_gini\<close> raises
  ZeroDivisionError and produces no value. No reachable state is in that case: there the
  wealth sums to the positive agent count and \<^verbatim>\<open>compute_gini\<close> returns a value.
\<close>

theorem compute_gini_zero_wealth:
  "(total_wealth m = 0 \<longrightarrow> compute_gini m = Inl ZeroDivisionError) \<and>
   (reachable m \<longrightarrow> 0 < total_wealth m \<and> (\<exists>g. compute_gini m = Inr g))"
proof -
  have "compute_gini m = Inl ZeroDivisionError" if "total_wealth m = 0"
    using that by (rule compute_gini_zero_division)
  moreover have "0 < total_wealth m \<and> (\<exists>g. compute_gini m = Inr g)" if r: "reachable m"
  proof -
    obtain n w h where wf: "well_formed n w h m"
      using reachable_well_formed [OF r] by blast
    note D = well_formedD [OF wf]
    have "0 < total_wealth m" using D(3,10) by simp
    moreover have "\<forall>a \<in> set (agents m). 0 \<le> wealth a"
      using D(2,9) by (auto simp: in_set_conv_nth)
    ultimately show ?thesis using compute_gini_defined [of m] D(1,2) by simp
  qed
  ultimately show ?thesis by blast
qed

theorem compute_gini_zero_wealth_witness:
  "total_wealth broke_model = 0 \<and> compute_gini broke_model = Inl ZeroDivisionError \<and>
   reachable example_model \<and> 0 < total_wealth example_model \<and>
   (\<exists>g. compute_gini example_model = Inr g)"
proof -
  have z: "total_wealth broke_model = 0" by (simp add: broke_model_def total_wealth_def)
  show ?thesis
    using z example_model_reachable compute_gini_zero_wealth [of broke_model]
      compute_gini_zero_wealth [of example_model] by simp
qed

subsection \<open>The neighbourhood on the torus\<close>

lemma upto_around: "[- 1..1] = [- 1, 0, 1 :: int]"
  by (simp add: upto.simps)

lemma get_neighborhood_origin:
  assumes "width g = 10" "height g = 10" "torus g"
  shows "get_neighborhood g (0, 0) 1 False =
          [(9, 9), (0, 9), (1, 9), (9, 0), (1, 0), (9, 1), (0, 1), (1, 1)]"
  using assms by (simp add: get_neighborhood_def normalize_def out_of_bounds_def upto_around)

text \<open>
  C9. Neighbourhood on the torus: the constructor fixes the wrap-around policy, and on
  a 10 by 10 grid the radius-1 Moore neighbourhood of \<open>(0, 0)\<close> without the centre is
  exactly the eight positions (9,9), (9,0), (9,1), (0,9), (0,1), (1,9), (1,0), (1,1).
\<close>

theorem neighborhood_of_origin:
  assumes "MoneyModel_init py_gen np_gen entropy n 10 10 seed = Inr m"
  shows "torus (grid m) \<and>
         set (get_neighborhood (grid m) (0, 0) 1 False) =
           {(9, 9), (9, 0), (9, 1), (0, 9), (0, 1), (1, 9), (1, 0), (1, 1)} \<and>
         length (get_neighborhood (grid m) (0, 0) 1 False) = 8"
proof -
  note D = well_formedD [OF MoneyModel_init_Inr(1) [OF assms]]
  have eq: "get_neighborhood (grid m) (0, 0) 1 False =
          [(9, 9), (0, 9), (1, 9), (9, 0), (1, 0), (9, 1), (0, 1), (1, 1)]"
    using D(4,5,6) by (rule get_neighborhood_origin)
  have "set [(9, 9), (0, 9), (1, 9), (9, 0), (1, 0), (9, 1), (0, 1), (1, 1 :: int)] =
          {(9, 9), (9, 0), (9, 1), (0, 9), (0, 1), (1, 9), (1, 0), (1 :: int, 1)}"
    by (simp add: insert_commute)
  then show ?thesis unfolding eq using D(6) by simp
qed

theorem neighborhood_of_origin_witness:
  "MoneyModel_init (\<lambda>k. sconst (nat k)) (\<lambda>k. sconst (nat k)) 3 2 10 10 (Some 0) = Inr example_model \<and>
   torus (grid example_model) \<and>
   set (get_neighborhood (grid example_model) (0, 0) 1 False) =
     {(9, 9), (9, 0), (9, 1), (0, 9), (0, 1), (1, 9), (1, 0), (1, 1)} \<and>
   length (get_neighborhood (grid example_model) (0, 0) 1 False) = 8"
  using example_model_constructed [of 3] neighborhood_of_origin [OF example_model_constructed [of 3]]
  by simp

subsection \<open>The move on a single cell\<close>

lemma single_cell_model_constructed:
  "MoneyModel_init (\<lambda>k. sconst (nat k)) (\<lambda>k. sconst (nat k)) e 1 1 1 (Some 0) = Inr single_cell_model"
  by (simp add: MoneyModel_init_def Model_init_def integers_def place_agent_def normalize_def
      out_of_bounds_def cell_insert_def MoneyAgent_init_def collect_def compute_gini_def double_eval
      enumerate_eq_zip Let_def single_cell_model_def)

lemma single_cell_neighborhood:
  "get_neighborhood (grid single_cell_model) (0, 0) 1 False = []"
  by (simp add: get_neighborhood_def normalize_def out_of_bounds_def upto_around
      single_cell_model_def)

lemma move_empty_neighborhood:
  assumes "pos (agents m ! a) = Some p" and "get_neighborhood (grid m) p 1 False = []"
  shows "move a m = (Some IndexError, m)"
  using assms by (simp add: move_def choice_def)

lemma MoneyAgent_step_empty_neighborhood:
  assumes "pos (agents m ! a) = Some p" and "get_neighborhood (grid m) p 1 False = []"
  shows "MoneyAgent_step a m = (Some IndexError, m)"
  using move_empty_neighborhood [OF assms] by (simp add: MoneyAgent_step_def)

text \<open>
  C3. The claim: an agent whose neighbourhood is empty (the 1 by 1 grid) does not move,
  no error is raised and its step completes. On the model that the constructor returns
  for one agent on a 1 by 1 grid, the neighbourhood of the agent is empty and its step
  raises IndexError: \<^verbatim>\<open>random.choice\<close> is called on the empty sequence.
\<close>

theorem empty_neighborhood_counterexample:
  "pos (agents single_cell_model ! 0) = Some (0, 0) \<and>
   get_neighborhood (grid single_cell_model) (0, 0) 1 False = [] \<and>
   fst (move 0 single_cell_model) = Some IndexError \<and>
   fst (MoneyAgent_step 0 single_cell_model) = Some IndexError"
proof -
  have p: "pos (agents single_cell_model ! 0) = Some (0, 0)"
    by (simp add: single_cell_model_def)
  show ?thesis
    using p single_cell_neighborhood
      move_empty_neighborhood [OF p single_cell_neighborhood]
      MoneyAgent_step_empty_neighborhood [OF p single_cell_neighborhood]
    by simp
qed

text \<open>
  C3, as the code has it: for an agent whose radius-1 Moore neighbourhood without the
  centre is empty, the move raises IndexError and the agent's step ends with that error;
  the model, and with it the agent's position, is left as it was.
\<close>

theorem empty_neighborhood_move:
  assumes "pos (agents m ! a) = Some p" and "get_neighborhood (grid m) p 1 False = []"
  shows "move a m = (Some IndexError, m) \<and> MoneyAgent_step a m = (Some IndexError, m)"
  using move_empty_neighborhood [OF assms] MoneyAgent_step_empty_neighborhood [OF assms]
  by simp

theorem empty_neighborhood_move_witness:
  "pos (agents single_cell_model ! 0) = Some (0, 0) \<and>
   get_neighborhood (grid single_cell_model) (0, 0) 1 False = [] \<and>
   move 0 single_cell_model = (Some IndexError, single_cell_model) \<and>
   MoneyAgent_step 0 single_cell_model = (Some IndexError, single_cell_model)"
proof -
  have p: "pos (agents single_cell_model ! 0) = Some (0, 0)"
    by (simp add: single_cell_model_def)
  show ?thesis
    using p single_cell_neighborhood empty_neighborhood_move [OF p single_cell_neighborhood]
    by blast
qed

subsection \<open>The transfer\<close>

lemma give_money_alone:
  assumes "pos (agents m ! a) = Some p" and "length (cells (grid m) p) \<le> 1"
  shows "give_money a m = (None, m)"
  using assms by (simp add: give_money_def get_cell_list_contents_def)

lemma give_money_to_other:
  assumes "pos (agents m ! a) = Some p" and "1 < length (cells (grid m) p)"
    and "choice (cells (grid m) p) (random m) = Inr (other, s')" and "other \<noteq> a"
    and "a < length (agents m)" and "other < length (agents m)"
  shows "wealth (agents (snd (give_money a m)) ! a) = wealth (agents m ! a) - 1"
    and "wealth (agents (snd (give_money a m)) ! other) = wealth (agents m ! other) + 1"
  using assms by (simp_all add: give_money_def get_cell_list_contents_def add_wealth_def)

lemma pair_model_constructed:
  "MoneyModel_init (\<lambda>k. [0, 0, 0] @- sconst 1) (\<lambda>k. sconst (nat k)) e 2 1 2 (Some 0) = Inr pair_model"
  by (simp add: MoneyModel_init_def Model_init_def integers_def place_agent_def normalize_def
      out_of_bounds_def cell_insert_def MoneyAgent_init_def collect_def compute_gini_def double_eval
      enumerate_eq_zip Let_def pair_model_def eval_nat_numeral upt_rec)

lemma pair_model_shuffle:
  "shuffle [0..<length (agents pair_model)] (random pair_model) = ([1, 0], [0, 0] @- sconst 1)"
  by (simp add: pair_model_def shuffle_def randbelow_def upt_rec)

lemma get_neighborhood_column:
  "width g = 1 \<Longrightarrow> height g = 2 \<Longrightarrow> torus g \<Longrightarrow>
   get_neighborhood g (0, 0) (Suc 0) False = [(0, 1)]"
  by (simp add: get_neighborhood_def normalize_def out_of_bounds_def upto_around)

lemma pair_model_agents_step:
  "do_each [1, 0] (pair_model\<lparr>random := [0, 0] @- sconst 1\<rparr>) = give_money 0 crowded_model"
  by (simp add: pair_model_def crowded_model_def MoneyAgent_step_def move_def
      get_neighborhood_column choice_def randbelow_def move_agent_def Let_def normalize_def
      out_of_bounds_def cell_insert_def cell_remove_def give_money_def
      get_cell_list_contents_def add_wealth_def)

lemma pair_model_step:
  "MoneyModel_step pair_model = and_then (give_money 0 crowded_model) collect"
  unfolding MoneyModel_step_def shuffle_do_def pair_model_shuffle Let_def prod.case
    pair_model_agents_step ..

text \<open>
  C2. The claim: with more than one agent on its cell, the acting agent picks another
  occupant, never itself, and hands it one unit of wealth. \<^verbatim>\<open>give_money\<close> chooses among
  all occupants of the cell, the acting agent included. The step of \<open>pair_model\<close>, a
  model as the constructor returns it, comes to \<^verbatim>\<open>give_money\<close> of agent 0 on
  \<open>crowded_model\<close>: there agent 0 has wealth 1 and shares its cell with agent 1, the draw
  picks agent 0 itself, and nobody's wealth changes.
\<close>

theorem give_money_picks_itself:
  "MoneyModel_step pair_model = and_then (give_money 0 crowded_model) collect \<and>
   get_cell_list_contents (grid crowded_model) [(0, 1)] = [1, 0] \<and>
   pos (agents crowded_model ! 0) = Some (0, 1) \<and>
   wealth (agents crowded_model ! 0) = 1 \<and>
   choice [1, 0] (random crowded_model) = Inr (0, sconst 1) \<and>
   fst (give_money 0 crowded_model) = None \<and>
   map wealth (agents (snd (give_money 0 crowded_model))) = [1, 1]"
  by (simp add: pair_model_step)
    (simp add: crowded_model_def get_cell_list_contents_def choice_def randbelow_def
      give_money_def add_wealth_def)

subsection \<open>The step of the model\<close>

lemma and_then_assoc:
  "and_then (and_then r f) g = and_then r (\<lambda>s. and_then (f s) g)"
  by (cases r) (auto simp: and_then_def split: option.splits)

lemma and_then_return: "and_then r (\<lambda>s. (None, s)) = r"
  by (cases r) (auto simp: and_then_def split: option.splits)

lemma foldl_and_then:
  "foldl (\<lambda>r a. and_then r (MoneyAgent_step a)) r as = and_then r (do_each as)"
proof (induction as arbitrary: r)
  case Nil
  have "do_each [] = (\<lambda>s. (None, s))" by (rule ext) simp
  then show ?case by (simp add: and_then_return)
next
  case (Cons a as)
  have "do_each (a # as) = (\<lambda>s. and_then (MoneyAgent_step a s) (do_each as))"
    by (rule ext) simp
  then show ?case by (simp add: Cons.IH and_then_assoc)
qed

lemma do_each_foldl:
  "do_each as m = foldl (\<lambda>r a. and_then r (MoneyAgent_step a)) (None, m) as"
  by (simp add: foldl_and_then)

lemma shuffle_loop_consumes:
  "snd (shuffle_loop i x s) = sdrop i s"
  by (induction i arbitrary: x s) (simp_all add: randbelow_def)

lemma shuffle_consumes: "snd (shuffle x s) = sdrop (length x - 1) s"
  by (simp add: shuffle_def shuffle_loop_consumes)

lemma move_datacollector: "datacollector (snd (move a m)) = datacollector m"
  by (auto simp: move_def move_agent_def Let_def split: option.splits sum.splits prod.splits)

lemma give_money_datacollector: "datacollector (snd (give_money a m)) = datacollector m"
  by (auto simp: give_money_def add_wealth_def Let_def split: option.splits sum.splits prod.splits)

lemma MoneyAgent_step_datacollector: "datacollector (snd (MoneyAgent_step a m)) = datacollector m"
proof -
  obtain e m' where mv: "move a m = (e, m')" by (cases "move a m")
  then have "datacollector m' = datacollector m" using move_datacollector [of a m] by simp
  then show ?thesis
    using mv give_money_datacollector [of a m']
    by (cases e) (simp_all add: MoneyAgent_step_def)
qed

lemma do_each_datacollector: "datacollector (snd (do_each as m)) = datacollector m"
proof (induction as arbitrary: m)
  case Nil
  then show ?case by simp
next
  case (Cons a as)
  obtain e m' where st: "MoneyAgent_step a m = (e, m')" by (cases "MoneyAgent_step a m")
  then have "datacollector m' = datacollector m"
    using MoneyAgent_step_datacollector [of a m] by simp
  then show ?case using st Cons.IH [of m'] by (cases e) simp_all
qed

lemma shuffle_do_datacollector: "datacollector (snd (shuffle_do m)) = datacollector m"
  by (simp add: shuffle_do_def do_each_datacollector split: prod.splits)

lemma collect_captures_once:
  assumes "fst (collect m) = None"
  shows "\<exists>g. model_vars (datacollector (snd (collect m))) = model_vars (datacollector m) @ [g]"
    and "agent_records (datacollector (snd (collect m))) =
           agent_records (datacollector m) @ [map wealth (agents m)]"
  using assms by (auto simp: collect_def split: sum.splits)

lemma collect_failed:
  "fst (collect m) \<noteq> None \<Longrightarrow> snd (collect m) = m"
  by (auto simp: collect_def split: sum.splits)

lemma MoneyModel_step_captures:
  "length (model_vars (datacollector (snd (MoneyModel_step m)))) =
     (if fst (MoneyModel_step m) = None then length (model_vars (datacollector m)) + 1
      else length (model_vars (datacollector m)))"
proof -
  obtain e m' where sd: "shuffle_do m = (e, m')" by (cases "shuffle_do m")
  have dc: "datacollector m' = datacollector m"
    using shuffle_do_datacollector [of m] sd by simp
  show ?thesis
  proof (cases e)
    case (Some x)
    with sd dc show ?thesis by (simp add: MoneyModel_step_def)
  next
    case None
    show ?thesis
    proof (cases "fst (collect m') = None")
      case True
      with collect_captures_once(1) [OF True] sd None dc show ?thesis
        by (auto simp: MoneyModel_step_def)
    next
      case False
      with collect_failed [OF False] sd None dc show ?thesis
        by (simp add: MoneyModel_step_def)
    qed
  qed
qed

subsection \<open>Steps that complete\<close>

lemma get_neighborhood_member:
  assumes "dx \<in> {- 1..1}" and "dy \<in> {- 1..1}"
    and "\<not> out_of_bounds g (normalize g (x + dx, y + dy))"
    and "normalize g (x + dx, y + dy) \<noteq> (x, y)"
  shows "normalize g (x + dx, y + dy) \<in> set (get_neighborhood g (x, y) 1 False)"
proof -
  have "normalize g (x + dx, y + dy)
          \<in> set (concat (map (\<lambda>dy. map (\<lambda>dx. normalize g (x + dx, y + dy)) [- 1..1]) [- 1..1]))"
    using assms(1,2) by (simp add: image_iff) (metis atLeastAtMost_iff)
  then show ?thesis
    using assms(3,4) by (simp add: get_neighborhood_def Let_def)
qed

lemma get_neighborhood_nonempty:
  assumes t: "torus g" and w: "0 < width g" and h: "0 < height g"
    and big: "1 < width g * height g" and p: "\<not> out_of_bounds g (x, y)"
  shows "get_neighborhood g (x, y) 1 False \<noteq> []"
proof -
  have xy: "0 \<le> x" "x < width g" "0 \<le> y" "y < height g"
    using p by (simp_all add: out_of_bounds_def not_less not_le)
  have "1 < width g \<or> 1 < height g"
  proof (rule ccontr)
    assume "\<not> (1 < width g \<or> 1 < height g)"
    with w h have "width g = 1" "height g = 1" by simp_all
    with big show False by simp
  qed
  then show ?thesis
  proof
    assume w1: "1 < width g"
    have ne: "(x + 1) mod width g \<noteq> x"
    proof (cases "x + 1 < width g")
      case True
      with xy show ?thesis by simp
    next
      case False
      with xy have "x + 1 = width g" by simp
      then have "(x + 1) mod width g = 0" by simp
      with \<open>x + 1 = width g\<close> w1 show ?thesis by simp
    qed
    have "normalize g (x + 1, y + 0) \<in> set (get_neighborhood g (x, y) 1 False)"
      using normalize_in_bounds [OF t w h, of "(x + 1, y + 0)"] ne t
      by (intro get_neighborhood_member) (simp_all add: normalize_def)
    then show ?thesis by auto
  next
    assume h1: "1 < height g"
    have ne: "(y + 1) mod height g \<noteq> y"
    proof (cases "y + 1 < height g")
      case True
      with xy show ?thesis by simp
    next
      case False
      with xy have "y + 1 = height g" by simp
      then have "(y + 1) mod height g = 0" by simp
      with \<open>y + 1 = height g\<close> h1 show ?thesis by simp
    qed
    have "normalize g (x + 0, y + 1) \<in> set (get_neighborhood g (x, y) 1 False)"
      using normalize_in_bounds [OF t w h, of "(x + 0, y + 1)"] ne t
      by (intro get_neighborhood_member) (simp_all add: normalize_def)
    then show ?thesis by auto
  qed
qed

lemma move_completes:
  assumes wf: "well_formed n w h m" and a: "a < n" and big: "1 < w * h"
  shows "fst (move a m) = None"
proof -
  note D = well_formedD [OF wf]
  note dims = well_formed_dims [OF wf]
  from D(8) [OF a] obtain p where p: "pos (agents m ! a) = Some p" "\<not> out_of_bounds (grid m) p"
    by blast
  obtain x y where xy: "p = (x, y)" by (cases p)
  have "get_neighborhood (grid m) p 1 False \<noteq> []"
    unfolding xy using D(4,5,6) dims big p(2) xy by (intro get_neighborhood_nonempty) simp_all
  then obtain q s' where ch: "choice (get_neighborhood (grid m) p 1 False) (random m) = Inr (q, s')"
    using choice_nonempty by blast
  have "\<not> out_of_bounds (grid m) (normalize (grid m) q)"
    using normalize_in_bounds [of "grid m" q] D(4,5,6) dims by simp
  then have "fst (move_agent a q (m\<lparr>random := s'\<rparr>)) = None"
    by (intro move_agent_completes) simp
  with p(1) ch show ?thesis by (simp add: move_def)
qed

lemma MoneyAgent_step_completes:
  assumes wf: "well_formed n w h m" and a: "a < n" and big: "1 < w * h"
  shows "fst (MoneyAgent_step a m) = None"
proof -
  obtain m' where mv: "move a m = (None, m')"
    using move_completes [OF assms] by (cases "move a m") simp
  have wf': "well_formed n w h m'" using move_well_formed [OF wf a] mv by simp
  from well_formedD(8) [OF wf' a] have "pos (agents m' ! a) \<noteq> None" by auto
  then have "fst (give_money a m') = None" by (rule give_money_completes)
  with mv show ?thesis by (simp add: MoneyAgent_step_def)
qed

lemma do_each_completes:
  "well_formed n w h m \<Longrightarrow> \<forall>a \<in> set as. a < n \<Longrightarrow> 1 < w * h \<Longrightarrow> fst (do_each as m) = None"
proof (induction as arbitrary: m)
  case Nil
  then show ?case by simp
next
  case (Cons a as)
  from Cons.prems have a: "a < n" by simp
  obtain m' where st: "MoneyAgent_step a m = (None, m')"
    using MoneyAgent_step_completes [OF Cons.prems(1) a Cons.prems(3)]
    by (cases "MoneyAgent_step a m") simp
  have wf': "well_formed n w h m'"
    using MoneyAgent_step_well_formed [OF Cons.prems(1) a] st by simp
  show ?case using Cons.IH [OF wf' _ Cons.prems(3)] Cons.prems(2) st by simp
qed

lemma MoneyModel_step_completes:
  assumes wf: "well_formed n w h m" and big: "1 < w * h"
  shows "fst (MoneyModel_step m) = None"
proof -
  obtain order s' where sh: "shuffle [0..<length (agents m)] (random m) = (order, s')"
    by (cases "shuffle [0..<length (agents m)] (random m)")
  have "set order = {0..<n}"
    using shuffle_set [of "[0..<length (agents m)]" "random m"] sh well_formedD(2) [OF wf] by simp
  then have ord: "\<forall>a \<in> set order. a < n" by simp
  have wfr: "well_formed n w h (m\<lparr>random := s'\<rparr>)" using wf by simp
  obtain m' where de: "do_each order (m\<lparr>random := s'\<rparr>) = (None, m')"
    using do_each_completes [OF wfr ord big] by (cases "do_each order (m\<lparr>random := s'\<rparr>)") simp
  have "well_formed n w h m'" using do_each_well_formed [OF wfr ord] de by simp
  then have "fst (collect m') = None" by (rule collect_completes)
  with sh de show ?thesis by (simp add: MoneyModel_step_def shuffle_do_def)
qed

lemma shuffle_depends_on_draws:
  "fst (shuffle [0, 1 :: nat] (sconst 0)) = [1, 0] \<and> fst (shuffle [0, 1 :: nat] (sconst 1)) = [0, 1]"
  by (simp add: shuffle_def randbelow_def)

text \<open>
  C8. The claim: every call to \<^verbatim>\<open>MoneyModel.step\<close> invokes the step of each agent once,
  in the order of a freshly drawn permutation, and then captures the metrics once. On the
  model that the constructor returns for a 1 by 1 grid the call ends with the IndexError
  of the first agent's move, and nothing is captured.
\<close>

theorem step_structure_counterexample:
  "fst (MoneyModel_step single_cell_model) = Some IndexError \<and>
   datacollector (snd (MoneyModel_step single_cell_model)) = datacollector single_cell_model"
proof -
  have p: "pos (agents single_cell_model ! 0) = Some (0, 0)"
    by (simp add: single_cell_model_def)
  have sh: "shuffle [0..<length (agents single_cell_model)] (random single_cell_model) = ([0], sconst 0)"
    by (simp add: single_cell_model_def shuffle_def)
  have r: "single_cell_model\<lparr>random := sconst 0\<rparr> = single_cell_model"
    by (simp add: single_cell_model_def)
  have "shuffle_do single_cell_model = (Some IndexError, single_cell_model)"
    using MoneyAgent_step_empty_neighborhood [OF p single_cell_neighborhood]
    by (simp add: shuffle_do_def sh r)
  then show ?thesis by (simp add: MoneyModel_step_def)
qed

text \<open>
  C8, as the code has it: a call to \<^verbatim>\<open>MoneyModel.step\<close> draws a permutation of the
  population from the shared generator, which moves on by the draws used. The order is
  not fixed: every permutation of the population is the order for some state of the
  generator, and for two agents or more the draws 0, 0, ... and 1, 1, ... give different
  orders. The steps of the agents are invoked one after the other in that order, each
  once, up to the first that raises, which ends the call. When none raises, one capture
  of the metrics follows the last of them and adds one entry to the series; a call that
  raises captures nothing. On a reachable model whose grid has more than one cell the
  call completes.
\<close>

theorem step_structure:
  "(\<exists>order s'.
      shuffle [0..<length (agents m)] (random m) = (order, s') \<and>
      s' = sdrop (length (agents m) - 1) (random m) \<and>
      mset order = mset [0..<length (agents m)] \<and>
      MoneyModel_step m =
        and_then (foldl (\<lambda>r a. and_then r (MoneyAgent_step a)) (None, m\<lparr>random := s'\<rparr>) order)
          collect) \<and>
   (\<forall>order. mset order = mset [0..<length (agents m)] \<longrightarrow>
      (\<exists>s. fst (shuffle [0..<length (agents m)] s) = order)) \<and>
   (2 \<le> length (agents m) \<longrightarrow>
      fst (shuffle [0..<length (agents m)] (sconst 0)) \<noteq>
      fst (shuffle [0..<length (agents m)] (sconst 1))) \<and>
   length (model_vars (datacollector (snd (MoneyModel_step m)))) =
     (if fst (MoneyModel_step m) = None then length (model_vars (datacollector m)) + 1
      else length (model_vars (datacollector m))) \<and>
   (reachable m \<and> 1 < width (grid m) * height (grid m) \<longrightarrow> fst (MoneyModel_step m) = None) \<and>
   fst (shuffle [0, 1 :: nat] (sconst 0)) \<noteq> fst (shuffle [0, 1 :: nat] (sconst 1))"
proof -
  obtain order s' where sh: "shuffle [0..<length (agents m)] (random m) = (order, s')"
    by (cases "shuffle [0..<length (agents m)] (random m)")
  have "s' = sdrop (length (agents m) - 1) (random m)"
    using shuffle_consumes [of "[0..<length (agents m)]" "random m"] sh by simp
  moreover have "mset order = mset [0..<length (agents m)]"
    using shuffle_mset [of "[0..<length (agents m)]" "random m"] sh by simp
  moreover have "MoneyModel_step m =
        and_then (foldl (\<lambda>r a. and_then r (MoneyAgent_step a)) (None, m\<lparr>random := s'\<rparr>) order)
          collect"
    using sh by (simp add: MoneyModel_step_def shuffle_do_def do_each_foldl)
  moreover have "fst (MoneyModel_step m) = None"
    if r: "reachable m" and big: "1 < width (grid m) * height (grid m)"
  proof -
    obtain n w h where wf: "well_formed n w h m"
      using reachable_well_formed [OF r] by blast
    with big have "1 < w * h" using well_formedD(4,5) [OF wf] by simp
    with wf show ?thesis by (rule MoneyModel_step_completes)
  qed
  moreover have "fst (shuffle [0, 1 :: nat] (sconst 0)) \<noteq> fst (shuffle [0, 1 :: nat] (sconst 1))"
    using shuffle_depends_on_draws by simp
  moreover have "\<exists>s. fst (shuffle [0..<length (agents m)] s) = order'"
    if "mset order' = mset [0..<length (agents m)]" for order'
    using that by (rule shuffle_reaches)
  moreover have "fst (shuffle [0..<length (agents m)] (sconst 0)) \<noteq>
      fst (shuffle [0..<length (agents m)] (sconst 1))" if "2 \<le> length (agents m)"
    using that by (rule shuffle_two_orders)
  ultimately show ?thesis
    using sh MoneyModel_step_captures [of m] by blast
qed

theorem step_structure_witness:
  "reachable example_model \<and> 1 < width (grid example_model) * height (grid example_model) \<and>
   fst (MoneyModel_step example_model) = None \<and>
   length (model_vars (datacollector example_model)) = 1 \<and>
   length (model_vars (datacollector (snd (MoneyModel_step example_model)))) = 2 \<and>
   2 \<le> length (agents example_model) \<and>
   mset [1, 0] = mset [0..<length (agents example_model)] \<and>
   (\<exists>s. fst (shuffle [0..<length (agents example_model)] s) = [1, 0]) \<and>
   fst (shuffle [0..<length (agents example_model)] (sconst 0)) \<noteq>
     fst (shuffle [0..<length (agents example_model)] (sconst 1))"
proof -
  have big: "1 < width (grid example_model) * height (grid example_model)"
    by (simp add: example_model_def)
  have one: "length (model_vars (datacollector example_model)) = 1"
    by (simp add: example_model_def)
  have two: "2 \<le> length (agents example_model)"
    by (simp add: example_model_def)
  have perm: "mset [1, 0] = mset [0..<length (agents example_model)]"
    by (simp add: example_model_def upt_rec)
  note S = step_structure [of example_model]
  from S example_model_reachable big have ok: "fst (MoneyModel_step example_model) = None"
    by blast
  with S one have cap: "length (model_vars (datacollector (snd (MoneyModel_step example_model)))) = 2"
    by simp
  from S perm have reach: "\<exists>s. fst (shuffle [0..<length (agents example_model)] s) = [1, 0]"
    by blast
  from S two have diff: "fst (shuffle [0..<length (agents example_model)] (sconst 0)) \<noteq>
     fst (shuffle [0..<length (agents example_model)] (sconst 1))"
    by blast
  from example_model_reachable big ok one cap two perm reach diff show ?thesis by blast
qed

end
